theory Spec2Isabelle
  imports Main "HOL-Library.Word"
begin

unbundle bit_operations_syntax

section \<open>Data model\<close>

text \<open>
  The packages crc32 and crc64 are the same code at two widths: \<open>uint32\<close> with
  \<open>nBits = 32\<close> and \<open>uint64\<close> with \<open>nBits = 64\<close>. The embedding is written once over
  \<open>'a word\<close>, with \<open>nBits = LENGTH('a)\<close>; crc32 is the instance \<open>32 word\<close> and crc64 the
  instance \<open>64 word\<close>.
\<close>

text \<open>The only failure of the code: \<open>panic("crc32: invalid state")\<close> in \<open>multModP\<close>.\<close>

datatype error = InvalidState

text \<open>
  \<open>type Poly struct { poly; x2nTbl [nBits]; stdlib *Table }\<close>. The byte table of the
  standard library is a list of 256 words.
\<close>

record 'w Poly =
  poly :: 'w
  x2nTbl :: "'w list"
  stdlib :: "'w list"

text \<open>
  The well-known polynomials, constants of the standard library in LSB-first form.
\<close>

definition IEEE_const :: "32 word" where
  "IEEE_const = 0xedb88320"

definition Castagnoli_const :: "32 word" where
  "Castagnoli_const = 0x82f63b78"

definition Koopman_const :: "32 word" where
  "Koopman_const = 0xeb31d82e"

definition ISO_const :: "64 word" where
  "ISO_const = 0xD800000000000000"

definition ECMA_const :: "64 word" where
  "ECMA_const = 0xC96C5795D7870F42"

section \<open>The standard library's table-driven update\<close>

text \<open>
  \<open>hash/crc32\<close> and \<open>hash/crc64\<close> of the Go standard library, which the packages call:
  \<open>MakeTable\<close> fills entry \<open>i\<close> with eight shift-and-reduce steps from \<open>i\<close>, and \<open>Update\<close>
  complements the sum, consumes one byte per step through the table and complements the
  result again.
\<close>

definition tableStep :: "'a::len word \<Rightarrow> 'a word \<Rightarrow> 'a word" where
  "tableStep pl crc = (if crc AND 1 = 1 then drop_bit 1 crc XOR pl else drop_bit 1 crc)"

definition MakeTable :: "'a::len word \<Rightarrow> 'a word list" where
  "MakeTable pl = map (\<lambda>i. (tableStep pl ^^ 8) (of_nat i)) [0..<256]"

definition updateByte :: "'a::len word list \<Rightarrow> 8 word \<Rightarrow> 'a word \<Rightarrow> 'a word" where
  "updateByte tab v crc = (tab ! unat ((ucast crc :: 8 word) XOR v)) XOR drop_bit 8 crc"

definition stdUpdate :: "'a::len word \<Rightarrow> 'a word list \<Rightarrow> 8 word list \<Rightarrow> 'a word" where
  "stdUpdate crc tab data = NOT (fold (updateByte tab) data (NOT crc))"

section \<open>The polynomial arithmetic\<close>

text \<open>
  \<open>multModP\<close>: the loop over the mask \<open>m\<close>, from \<open>1 << (nBits - 1)\<close> down, with the
  accumulator \<open>v\<close> and the working copy of \<open>b\<close>. Leaving the loop with \<open>m = 0\<close> is the
  panic.
\<close>

function multModP_loop ::
  "'a::len word Poly \<Rightarrow> 'a word \<Rightarrow> 'a word \<Rightarrow> 'a word \<Rightarrow> 'a word \<Rightarrow> error + 'a word" where
  "multModP_loop p a m v b =
     (if m = 0 then Inl InvalidState
      else
        let v' = (if a AND m \<noteq> 0 then v XOR b else v) in
        if a AND m \<noteq> 0 \<and> a AND (m - 1) = 0 then Inr v'
        else
          let xor = (b AND 1 \<noteq> 0);
              b' = (if xor then drop_bit 1 b XOR poly p else drop_bit 1 b)
          in multModP_loop p a (drop_bit 1 m) v' b')"
  by pat_completeness auto
termination
proof (relation "measure (\<lambda>(p, a, m, v, b). unat m)")
  show "wf (measure (\<lambda>(p, a, m, v, b). unat m))" by simp
next
  fix p :: "'a word Poly" and a m v b x xa xb :: "'a word"
  assume "m \<noteq> 0"
  then have "unat m \<noteq> 0" by (simp add: unat_eq_0)
  then have "unat m div 2 < unat m" by simp
  then have "unat (drop_bit 1 m) < unat m" by (simp add: drop_bit_eq_div unat_div)
  then show "((p, a, drop_bit 1 m, x, xb), (p, a, m, v, b)) \<in> measure (\<lambda>(p, a, m, v, b). unat m)"
    by simp
qed

definition multModP :: "'a::len word Poly \<Rightarrow> 'a word \<Rightarrow> 'a word \<Rightarrow> error + 'a word" where
  "multModP p a b = multModP_loop p a (push_bit (LENGTH('a) - 1) 1) 0 b"

text \<open>
  \<open>makePoly\<close>: entry 0 of the table is \<open>1 << (nBits - 2)\<close> and the loop
  \<open>for n := 1; n < nBits; n++\<close> stores the square of the previous entry. A panic of
  \<open>multModP\<close> ends the construction.
\<close>

function makePoly_loop :: "'a::len word Poly \<Rightarrow> 'a word \<Rightarrow> nat \<Rightarrow> error + 'a word Poly" where
  "makePoly_loop p v n =
     (if n < LENGTH('a) then
        (case multModP p v v of
           Inl e \<Rightarrow> Inl e
         | Inr v' \<Rightarrow> makePoly_loop (p\<lparr>x2nTbl := (x2nTbl p)[n := v']\<rparr>) v' (Suc n))
      else Inr p)"
  by pat_completeness auto
termination
  by (relation "measure (\<lambda>(p :: 'a word Poly, v, n). LENGTH('a) - n)") auto

definition makePoly :: "'a::len word \<Rightarrow> error + 'a word Poly" where
  "makePoly pl =
     (let p = \<lparr>poly = pl, x2nTbl = replicate LENGTH('a) 0, stdlib = MakeTable pl\<rparr>;
          v = push_bit (LENGTH('a) - 2) 1
      in makePoly_loop (p\<lparr>x2nTbl := (x2nTbl p)[0 := v]\<rparr>) v 1)"

definition Polynomial :: "'a::len word Poly \<Rightarrow> 'a word" where
  "Polynomial p = poly p"

definition Update :: "'a::len word Poly \<Rightarrow> 'a word \<Rightarrow> 8 word list \<Rightarrow> 'a word" where
  "Update p s data = stdUpdate s (stdlib p) data"

definition Checksum :: "'a::len word Poly \<Rightarrow> 8 word list \<Rightarrow> 'a word" where
  "Checksum p data = stdUpdate 0 (stdlib p) data"

text \<open>
  \<open>x2NModP\<close>: \<open>n\<close> is an \<open>int64\<close>, so \<open>n >>= 1\<close> is the arithmetic shift, and the loop
  \<open>for n != 0\<close> has no other exit than a panic of \<open>multModP\<close>. A run that never leaves
  the loop is \<open>None\<close>. The index \<open>k\<close> has the width of the checksum.
\<close>

partial_function (option) x2NModP_loop ::
  "'a::len word Poly \<Rightarrow> 64 word \<Rightarrow> 'a word \<Rightarrow> 'a word \<Rightarrow> (error + 'a word) option" where
  "x2NModP_loop p n k v =
     (if n = 0 then Some (Inr v)
      else if n AND 1 \<noteq> 0 then
        (case multModP p (x2nTbl p ! unat (k AND of_nat (LENGTH('a) - 1))) v of
           Inl e \<Rightarrow> Some (Inl e)
         | Inr v' \<Rightarrow> x2NModP_loop p (signed_drop_bit 1 n) (k + 1) v')
      else x2NModP_loop p (signed_drop_bit 1 n) (k + 1) v)"

definition x2NModP :: "'a::len word Poly \<Rightarrow> 64 word \<Rightarrow> 'a word \<Rightarrow> (error + 'a word) option" where
  "x2NModP p n k = x2NModP_loop p n k (push_bit (LENGTH('a) - 1) 1)"

definition Combine ::
  "'a::len word Poly \<Rightarrow> 'a word \<Rightarrow> 'a word \<Rightarrow> 64 word \<Rightarrow> (error + 'a word) option" where
  "Combine p prev next n =
     (if prev = 0 then Some (Inr next)
      else if sint n \<le> 0 then Some (Inr prev)
      else
        (case x2NModP p n 3 of
           None \<Rightarrow> None
         | Some (Inl e) \<Rightarrow> Some (Inl e)
         | Some (Inr x) \<Rightarrow>
             (case multModP p prev x of
                Inl e \<Rightarrow> Some (Inl e)
              | Inr r \<Rightarrow> Some (Inr (r XOR next)))))"

section \<open>Reference arithmetic\<close>

text \<open>
  The product of the documentation of \<open>multModP\<close>, \<open>(a(x) * b(x)) modulo p(x)\<close> in the
  reflected representation, written without the loop's early exit: \<open>mulX\<close> multiplies by
  \<open>x\<close> (one shift, reduced by the polynomial when a bit falls out), and \<open>mulP\<close> adds the
  copy \<open>b * x^i\<close> for every bit \<open>nBits - 1 - i\<close> set in \<open>a\<close>.
\<close>

definition mulX :: "'a::len word \<Rightarrow> 'a word \<Rightarrow> 'a word" where
  "mulX pl b = (if bit b 0 then drop_bit 1 b XOR pl else drop_bit 1 b)"

fun mulS :: "'a::len word \<Rightarrow> 'a word \<Rightarrow> nat \<Rightarrow> 'a word \<Rightarrow> 'a word" where
  "mulS pl a 0 b = (if bit a 0 then b else 0)"
| "mulS pl a (Suc j) b = (if bit a (Suc j) then b else 0) XOR mulS pl a j (mulX pl b)"

definition mulP :: "'a::len word \<Rightarrow> 'a word \<Rightarrow> 'a word \<Rightarrow> 'a word" where
  "mulP pl a b = mulS pl a (LENGTH('a) - 1) b"

text \<open>\<open>xpow pl n\<close> is \<open>x^n\<close> modulo the polynomial: \<open>n\<close> multiplications of \<open>1\<close> by \<open>x\<close>.\<close>

definition xpow :: "'a::len word \<Rightarrow> nat \<Rightarrow> 'a word" where
  "xpow pl n = (mulX pl ^^ n) (2 ^ (LENGTH('a) - 1))"

text \<open>
  \<open>noAbove pl v\<close>: no bit of \<open>v\<close> lies above the highest bit of the polynomial, the
  invariant under which a multiplication by \<open>x\<close> does not reach zero.
\<close>

definition noAbove :: "'a::len word \<Rightarrow> 'a word \<Rightarrow> bool" where
  "noAbove pl v = (\<forall>i. bit v i \<longrightarrow> (\<exists>j\<ge>i. bit pl j))"

section \<open>The well-known polynomial cache\<close>

text \<open>
  \<open>shared.Val\<close> and \<open>lazy.Value\<close>: \<open>once\<close> records that the constructor has run and
  \<open>val\<close> holds the pointer it returned, \<open>None\<close> for the nil pointer of a fresh value.
  \<open>Get\<close> runs the constructor the first time and returns \<open>val\<close>; the constructor is the
  \<open>New\<close> (or \<open>Init\<close>) field, passed as a parameter. A panic of the constructor ends
  the call.
\<close>

record 'T Val =
  once :: bool
  val :: "'T option"

definition Get :: "(unit \<Rightarrow> error + 'T) \<Rightarrow> 'T Val \<Rightarrow> error + ('T option \<times> 'T Val)" where
  "Get new v =
     (if once v then Inr (val v, v)
      else
        (case new () of
           Inl e \<Rightarrow> Inl e
         | Inr x \<Rightarrow> Inr (Some x, v\<lparr>once := True, val := Some x\<rparr>)))"

text \<open>The package-level variables of crc32 and of crc64, as the state the accessors thread.\<close>

record vars32 =
  ieeePoly :: "32 word Poly Val"
  castPoly :: "32 word Poly Val"
  koopPoly :: "32 word Poly Val"

record vars64 =
  isoPoly :: "64 word Poly Val"
  ecmaPoly :: "64 word Poly Val"

definition IEEE :: "vars32 \<Rightarrow> error + (32 word Poly option \<times> vars32)" where
  "IEEE st =
     (case Get (\<lambda>_. makePoly IEEE_const) (ieeePoly st) of
        Inl e \<Rightarrow> Inl e
      | Inr (r, c) \<Rightarrow> Inr (r, st\<lparr>ieeePoly := c\<rparr>))"

definition Castagnoli :: "vars32 \<Rightarrow> error + (32 word Poly option \<times> vars32)" where
  "Castagnoli st =
     (case Get (\<lambda>_. makePoly Castagnoli_const) (castPoly st) of
        Inl e \<Rightarrow> Inl e
      | Inr (r, c) \<Rightarrow> Inr (r, st\<lparr>castPoly := c\<rparr>))"

definition Koopman :: "vars32 \<Rightarrow> error + (32 word Poly option \<times> vars32)" where
  "Koopman st =
     (case Get (\<lambda>_. makePoly Koopman_const) (koopPoly st) of
        Inl e \<Rightarrow> Inl e
      | Inr (r, c) \<Rightarrow> Inr (r, st\<lparr>koopPoly := c\<rparr>))"

definition ISO :: "vars64 \<Rightarrow> error + (64 word Poly option \<times> vars64)" where
  "ISO st =
     (case Get (\<lambda>_. makePoly ISO_const) (isoPoly st) of
        Inl e \<Rightarrow> Inl e
      | Inr (r, c) \<Rightarrow> Inr (r, st\<lparr>isoPoly := c\<rparr>))"

definition ECMA :: "vars64 \<Rightarrow> error + (64 word Poly option \<times> vars64)" where
  "ECMA st =
     (case Get (\<lambda>_. makePoly ECMA_const) (ecmaPoly st) of
        Inl e \<Rightarrow> Inl e
      | Inr (r, c) \<Rightarrow> Inr (r, st\<lparr>ecmaPoly := c\<rparr>))"

text \<open>\<open>MakePoly\<close> of crc32 and of crc64: the switch on the well-known constants.\<close>

definition MakePoly32 :: "32 word \<Rightarrow> vars32 \<Rightarrow> error + (32 word Poly option \<times> vars32)" where
  "MakePoly32 pl st =
     (if pl = IEEE_const then IEEE st
      else if pl = Castagnoli_const then Castagnoli st
      else if pl = Koopman_const then Koopman st
      else (case makePoly pl of Inl e \<Rightarrow> Inl e | Inr p \<Rightarrow> Inr (Some p, st)))"

definition MakePoly64 :: "64 word \<Rightarrow> vars64 \<Rightarrow> error + (64 word Poly option \<times> vars64)" where
  "MakePoly64 pl st =
     (if pl = ISO_const then ISO st
      else if pl = ECMA_const then ECMA st
      else (case makePoly pl of Inl e \<Rightarrow> Inl e | Inr p \<Rightarrow> Inr (Some p, st)))"

section \<open>The exponentiation as the specification words it\<close>

text \<open>
  The algorithm of the specification for \<open>x2NModP\<close>, on a natural number \<open>n\<close>: start
  from \<open>v\<close>; while \<open>n\<close> is not zero, fold in \<open>powerTable[k mod W]\<close> through \<open>multModP\<close>
  if the lowest bit of \<open>n\<close> is set, halve \<open>n\<close> and increment \<open>k\<close>.
\<close>

function x2NModP_spec :: "'a::len word Poly \<Rightarrow> nat \<Rightarrow> nat \<Rightarrow> 'a word \<Rightarrow> error + 'a word" where
  "x2NModP_spec p n k v =
     (if n = 0 then Inr v
      else if odd n then
        (case multModP p (x2nTbl p ! (k mod LENGTH('a))) v of
           Inl e \<Rightarrow> Inl e
         | Inr v' \<Rightarrow> x2NModP_spec p (n div 2) (k + 1) v')
      else x2NModP_spec p (n div 2) (k + 1) v)"
  by pat_completeness auto
termination
  by (relation "measure (\<lambda>(p, n, k, v). n)") auto

section \<open>The loop of multModP\<close>

declare multModP_loop.simps [simp del]
declare makePoly_loop.simps [simp del]
declare x2NModP_spec.simps [simp del]

lemma and_bit_mask: "(a AND 2 ^ j \<noteq> 0) = bit (a :: 'a::len word) j"
  by (simp add: and_exp_eq_0_iff_not_bit)

lemma and_low_mask: "(a :: 'a::len word) AND (2 ^ j - 1) = take_bit j a"
  by (simp add: take_bit_eq_mask mask_eq_exp_minus_1)

lemma and_one_bit: "((b :: 'a::len word) AND 1 \<noteq> 0) = bit b 0"
  by (simp add: and_one_eq bit_0 mod_2_eq_odd)

lemma drop_mask: "Suc j < LENGTH('a) \<Longrightarrow> drop_bit (Suc 0) ((2 :: 'a::len word) ^ Suc j) = 2 ^ j"
  by (rule bit_word_eqI) (auto simp add: bit_simps simp del: power_Suc)

lemma mask_nonzero: "j < LENGTH('a) \<Longrightarrow> (2 :: 'a::len word) ^ j \<noteq> 0"
  by simp

lemma mulS_zero: "take_bit (Suc j) a = 0 \<Longrightarrow> mulS pl a j b = 0"
proof (induction j arbitrary: b)
  case 0
  then show ?case by (simp add: take_bit_Suc bit_0 mod_2_eq_odd)
next
  case (Suc j)
  have "bit (take_bit (Suc (Suc j)) a) (Suc j) = bit a (Suc j)"
    by (simp add: bit_take_bit_iff)
  with Suc.prems have nb: "\<not> bit a (Suc j)" by simp
  have "take_bit (Suc j) (take_bit (Suc (Suc j)) a) = take_bit (Suc j) a"
    by (simp only: take_bit_take_bit) simp
  with Suc.prems have "take_bit (Suc j) a = 0" by simp
  with Suc.IH nb show ?case by simp
qed

lemma loop_zero: "multModP_loop p 0 m v b = Inl InvalidState"
  by (induction p "0 :: 'a::len word" m v b rule: multModP_loop.induct) (subst multModP_loop.simps, simp add: Let_def)


lemma take_bit_Suc_nonzero:
  "take_bit (Suc j) (a :: 'a::len word) \<noteq> 0 \<Longrightarrow> \<not> bit a j \<Longrightarrow> take_bit j a \<noteq> 0"
proof
  assume nz: "take_bit (Suc j) a \<noteq> 0" and nb: "\<not> bit a j" and z: "take_bit j a = 0"
  have "take_bit (Suc j) a = 0"
  proof (rule bit_word_eqI)
    fix n assume "n < LENGTH('a)"
    have "bit (take_bit j a) n = False" using z by simp
    then have "n < j \<longrightarrow> \<not> bit a n" by (simp add: bit_take_bit_iff)
    with nb show "bit (take_bit (Suc j) a) n = bit (0 :: 'a word) n"
      by (auto simp add: bit_take_bit_iff less_Suc_eq)
  qed
  with nz show False by simp
qed

lemma loop_mulS:
  "j < LENGTH('a) \<Longrightarrow> take_bit (Suc j) a \<noteq> 0 \<Longrightarrow>
   multModP_loop p a (2 ^ j) v b = Inr (v XOR mulS (poly p) a j (b :: 'a::len word))"
proof (induction j arbitrary: v b)
  case 0
  then have b0: "bit a 0" by (simp add: take_bit_Suc bit_0 mod_2_eq_odd)
  then have "a AND 1 \<noteq> 0" by (simp add: and_one_bit)
  then show ?case using b0
    by (subst multModP_loop.simps) (simp add: Let_def)
next
  case (Suc j)
  define m :: "'a word" where "m = 2 ^ Suc j"
  have m: "m \<noteq> 0" unfolding m_def using Suc.prems(1) by (rule mask_nonzero)
  have bm: "(a AND m \<noteq> 0) = bit a (Suc j)" unfolding m_def by (rule and_bit_mask)
  have lm: "a AND (m - 1) = take_bit (Suc j) a" unfolding m_def by (rule and_low_mask)
  have dm: "drop_bit (Suc 0) m = 2 ^ j" unfolding m_def using Suc.prems(1) by (rule drop_mask)
  have jl: "j < LENGTH('a)" using Suc.prems(1) by simp
  have goal: "multModP_loop p a m v b = Inr (v XOR mulS (poly p) a (Suc j) b)"
  proof (cases "bit a (Suc j) \<and> take_bit (Suc j) a = 0")
    case True
    then have "mulS (poly p) a j (mulX (poly p) b) = 0" by (simp add: mulS_zero)
    with True m bm lm show ?thesis
      by (subst multModP_loop.simps) (simp add: Let_def)
  next
    case False
    have nz: "take_bit (Suc j) a \<noteq> 0"
    proof (cases "bit a (Suc j)")
      case True with False show ?thesis by simp
    next
      case False with Suc.prems(2) show ?thesis by (rule take_bit_Suc_nonzero)
    qed
    have step: "multModP_loop p a m v b =
          multModP_loop p a (2 ^ j) (if bit a (Suc j) then v XOR b else v) (mulX (poly p) b)"
      using False m bm lm nz dm
      by (subst multModP_loop.simps) (simp add: Let_def and_one_bit mulX_def)
    show ?thesis
      unfolding step using Suc.IH [OF jl nz] by (simp add: xor.assoc)
  qed
  then show ?case unfolding m_def .
qed

lemma multModP_mulP: "a \<noteq> 0 \<Longrightarrow> multModP p a b = Inr (mulP (poly p) a b)"
proof -
  assume "a \<noteq> 0"
  then have nz: "take_bit (Suc (LENGTH('a) - 1)) a \<noteq> 0" by simp
  have "multModP_loop p a (2 ^ (LENGTH('a) - 1)) 0 b = Inr (0 XOR mulS (poly p) a (LENGTH('a) - 1) b)"
    by (rule loop_mulS [OF _ nz]) simp
  then show ?thesis
    by (simp add: multModP_def mulP_def)
qed

lemma multModP_zero: "multModP p 0 b = Inl InvalidState"
  by (simp add: multModP_def loop_zero)

text \<open>
  C4. For every Poly, every non-zero \<open>a\<close> and every \<open>b\<close>, \<open>multModP(a, b)\<close> returns a
  value and does not panic; the value is the product without early exit. At the mask of
  the last set bit of \<open>a\<close> the loop returns at once. The fall-through, reached with
  \<open>a = 0\<close>, is the panic and not a value.
\<close>

theorem multModP_early_exit:
  "(a \<noteq> 0 \<longrightarrow> multModP p a b = Inr (mulP (poly p) a b)) \<and>
   (bit a j \<and> take_bit j a = 0 \<longrightarrow> multModP_loop p a (2 ^ j) v c = Inr (v XOR c)) \<and>
   multModP p 0 b = Inl InvalidState"
proof (intro conjI impI)
  assume "a \<noteq> 0" then show "multModP p a b = Inr (mulP (poly p) a b)" by (rule multModP_mulP)
next
  assume h: "bit a j \<and> take_bit j a = 0"
  then have "j < LENGTH('a)" by (auto dest: bit_imp_le_length)
  then have "(2 :: 'a word) ^ j \<noteq> 0" by (rule mask_nonzero)
  with h show "multModP_loop p a (2 ^ j) v c = Inr (v XOR c)"
    by (subst multModP_loop.simps) (simp add: Let_def and_bit_mask and_low_mask)
next
  show "multModP p 0 b = Inl InvalidState" by (rule multModP_zero)
qed

theorem multModP_early_exit_witness:
  "(5 :: 32 word) \<noteq> 0 \<and> bit (5 :: 32 word) 0 \<and> take_bit 0 (5 :: 32 word) = 0 \<and>
   multModP (projr (makePoly IEEE_const)) 5 3
     = Inr (mulP (poly (projr (makePoly IEEE_const))) 5 3) \<and>
   multModP_loop (projr (makePoly IEEE_const)) 5 (2 ^ 0) 9 3 = Inr (9 XOR 3) \<and>
   multModP (projr (makePoly IEEE_const)) 0 3 = Inl InvalidState"
  using multModP_early_exit [of 5 "projr (makePoly IEEE_const)" 3 0 9 3]
  by simp

section \<open>The algebra of the product\<close>

lemma mulX_xor: "mulX pl (u XOR v) = mulX pl u XOR mulX pl v"
  by (rule bit_word_eqI) (auto simp add: mulX_def bit_simps)

lemma mulX_zero: "mulX pl 0 = 0"
  by (simp add: mulX_def)

lemma mulS_xor: "mulS pl a j (u XOR v) = mulS pl a j u XOR mulS pl a j v"
proof (induction j arbitrary: u v)
  case 0
  show ?case by simp
next
  case (Suc j)
  show ?case
    by (simp add: mulX_xor Suc.IH xor.assoc xor.left_commute)
qed

lemma mulS_transfer:
  assumes add: "\<And>u v. T (u XOR v) = T u XOR T v"
    and comm: "\<And>u. T (mulX pl u) = mulX pl (T u)"
  shows "T (mulS pl a j b) = mulS pl a j (T b)"
proof -
  have "T 0 = T 0 XOR T 0" using add [of 0 0] by simp
  then have z: "T 0 = 0" by (metis xor_self_eq bit.xor_cancel_left xor.assoc xor.right_neutral)
  show ?thesis
  proof (induction j arbitrary: b)
    case 0
    show ?case by (simp add: z)
  next
    case (Suc j)
    show ?case by (simp add: add z Suc.IH comm)
  qed
qed

lemma mulX_pow2: "Suc j < LENGTH('a) \<Longrightarrow> mulX pl ((2 :: 'a::len word) ^ Suc j) = 2 ^ j"
  unfolding mulX_def
  by (rule bit_word_eqI) (auto simp add: bit_simps simp del: power_Suc)

lemma mulS_unit: "j < LENGTH('a) \<Longrightarrow> mulS pl a j (2 ^ j) = take_bit (Suc j) (a :: 'a::len word)"
proof (induction j)
  case 0
  show ?case
    by (rule bit_word_eqI) (auto simp add: bit_simps bit_0)
next
  case (Suc j)
  then have IH: "mulS pl a j (2 ^ j) = take_bit (Suc j) a" by simp
  have "mulS pl a (Suc j) (2 ^ Suc j) = (if bit a (Suc j) then 2 ^ Suc j else 0) XOR take_bit (Suc j) a"
    using Suc.prems by (simp only: mulS.simps mulX_pow2 IH)
  also have "\<dots> = take_bit (Suc (Suc j)) a"
    by (rule bit_word_eqI) (auto simp add: bit_simps less_Suc_eq simp del: power_Suc)
  finally show ?case .
qed


lemma mulP_unit: "mulP pl a (2 ^ (LENGTH('a) - 1)) = (a :: 'a::len word)"
  by (simp add: mulP_def mulS_unit)

lemma mulP_xor: "mulP pl a (u XOR v) = mulP pl a u XOR mulP pl a v"
  by (simp add: mulP_def mulS_xor)

lemma mulP_mulX: "mulP pl a (mulX pl b) = mulX pl (mulP pl a b)"
  unfolding mulP_def
  by (rule mulS_transfer [symmetric]) (simp_all add: mulX_xor)

lemma linear_repr:
  fixes T :: "'a::len word \<Rightarrow> 'a word"
  assumes add: "\<And>u v. T (u XOR v) = T u XOR T v"
    and comm: "\<And>u. T (mulX pl u) = mulX pl (T u)"
  shows "T v = mulP pl v (T (2 ^ (LENGTH('a) - 1)))"
proof -
  have "T v = T (mulP pl v (2 ^ (LENGTH('a) - 1)))" by (simp only: mulP_unit)
  also have "\<dots> = mulP pl v (T (2 ^ (LENGTH('a) - 1)))"
    unfolding mulP_def using add comm by (rule mulS_transfer)
  finally show ?thesis .
qed

lemma mulP_commute: "mulP pl a b = mulP pl b a"
proof -
  have "mulP pl a b = mulP pl b (mulP pl a (2 ^ (LENGTH('a) - 1)))"
    by (rule linear_repr [where T = "mulP pl a"]) (simp_all add: mulP_xor mulP_mulX)
  then show ?thesis by (simp only: mulP_unit)
qed

lemma mulP_assoc: "mulP pl a (mulP pl b c) = mulP pl (mulP pl a b) c"
proof -
  have "mulP pl a (mulP pl b c) = mulP pl c (mulP pl a (mulP pl b (2 ^ (LENGTH('a) - 1))))"
    by (rule linear_repr [where T = "\<lambda>c. mulP pl a (mulP pl b c)"]) (simp_all add: mulP_xor mulP_mulX)
  then show ?thesis by (simp only: mulP_unit mulP_commute [of pl c])
qed

lemma funpow_mulX_xor: "(mulX pl ^^ n) (u XOR v) = (mulX pl ^^ n) u XOR (mulX pl ^^ n) v"
  by (induction n arbitrary: u v) (simp_all add: mulX_xor)

lemma funpow_mulX_comm: "(mulX pl ^^ n) (mulX pl u) = mulX pl ((mulX pl ^^ n) u)"
  by (induction n) simp_all

lemma mulP_xpow: "mulP pl (xpow pl n) v = (mulX pl ^^ n) v"
proof -
  have "(mulX pl ^^ n) v = mulP pl v ((mulX pl ^^ n) (2 ^ (LENGTH('a) - 1)))"
    by (rule linear_repr [where T = "mulX pl ^^ n"]) (simp_all add: funpow_mulX_xor funpow_mulX_comm)
  then show ?thesis by (simp only: xpow_def mulP_commute [of pl v])
qed

lemma xpow_add: "mulP pl (xpow pl m) (xpow pl n) = xpow pl (m + n)"
proof -
  have "mulP pl (xpow pl m) (xpow pl n) = (mulX pl ^^ m) (xpow pl n)" by (rule mulP_xpow)
  also have "\<dots> = xpow pl (m + n)" by (simp only: xpow_def funpow_add o_apply)
  finally show ?thesis .
qed

lemma xpow_small: "n < LENGTH('a) \<Longrightarrow> xpow pl n = (2 :: 'a::len word) ^ (LENGTH('a) - 1 - n)"
proof (induction n)
  case 0
  show ?case by (simp add: xpow_def)
next
  case (Suc n)
  then have IH: "(mulX pl ^^ n) (2 ^ (LENGTH('a) - 1)) = 2 ^ (LENGTH('a) - 1 - n)"
    by (simp add: xpow_def)
  have e: "LENGTH('a) - 1 - n = Suc (LENGTH('a) - 1 - Suc n)" using Suc.prems by simp
  have "mulX pl ((2 :: 'a word) ^ Suc (LENGTH('a) - 1 - Suc n)) = 2 ^ (LENGTH('a) - 1 - Suc n)"
    by (rule mulX_pow2) (use Suc.prems in simp)
  then show ?case
    unfolding xpow_def funpow.simps o_apply IH e .
qed

section \<open>Powers of x and the table of makePoly\<close>

lemma multModP_eq:
  "multModP p a b = (if a = 0 then Inl InvalidState else Inr (mulP (poly p) a b))"
  by (simp add: multModP_zero multModP_mulP)

lemma highest_bit:
  assumes "(w :: 'a::len word) \<noteq> 0"
  shows "\<exists>h. bit w h \<and> (\<forall>j>h. \<not> bit w j)"
proof -
  let ?S = "{i. bit w i}"
  have fin: "finite ?S"
  proof (rule finite_subset)
    show "?S \<subseteq> {..<LENGTH('a)}" by (auto dest: bit_imp_le_length)
  qed simp
  have ne: "?S \<noteq> {}"
  proof
    assume "?S = {}"
    then have "\<And>i. \<not> bit w i" by blast
    then have "w = 0" by (intro bit_word_eqI) simp
    with assms show False by simp
  qed
  have a: "bit w (Max ?S)" using Max_in [OF fin ne] by simp
  have b: "\<forall>j>Max ?S. \<not> bit w j"
  proof (intro allI impI notI)
    fix j assume "Max ?S < j" "bit w j"
    then have "j \<le> Max ?S" using fin by (intro Max_ge) simp_all
    with \<open>Max ?S < j\<close> show False by simp
  qed
  from a b show ?thesis by blast
qed

lemma noAbove_mulX: "noAbove pl v \<Longrightarrow> noAbove pl (mulX pl v)"
  unfolding noAbove_def mulX_def
proof (intro allI impI)
  fix i
  assume h: "\<forall>i. bit v i \<longrightarrow> (\<exists>j\<ge>i. bit pl j)"
    and b: "bit (if bit v 0 then drop_bit 1 v XOR pl else drop_bit 1 v) i"
  show "\<exists>j\<ge>i. bit pl j"
  proof (cases "bit pl i")
    case True then show ?thesis by blast
  next
    case False
    with b have "bit v (Suc i)" by (auto simp add: bit_simps split: if_splits)
    with h obtain j where "j \<ge> Suc i" "bit pl j" by blast
    then show ?thesis by (intro exI [of _ j]) simp
  qed
qed

lemma mulX_nonzero:
  assumes pl: "pl \<noteq> 0" and na: "noAbove pl v" and v: "v \<noteq> 0"
  shows "mulX pl v \<noteq> 0"
proof
  assume z: "mulX pl v = 0"
  show False
  proof (cases "bit v 0")
    case False
    with z have d: "drop_bit 1 v = 0" by (simp add: mulX_def)
    have "v = 0"
    proof (rule bit_word_eqI)
      fix n assume "n < LENGTH('a)"
      show "bit v n = bit (0 :: 'a word) n"
      proof (cases n)
        case 0 with False show ?thesis by simp
      next
        case (Suc k)
        have "bit (drop_bit 1 v) k = bit v (Suc k)" by (simp add: bit_simps)
        with d Suc show ?thesis by simp
      qed
    qed
    with v show False by simp
  next
    case True
    with z have "drop_bit 1 v XOR pl = 0" by (simp add: mulX_def)
    then have "(drop_bit 1 v XOR pl) XOR pl = 0 XOR pl" by (simp only:)
    then have d: "drop_bit 1 v = pl" by (simp add: xor.assoc)
    from highest_bit [OF pl] obtain h where h: "bit pl h" "\<forall>j>h. \<not> bit pl j" by blast
    have "bit (drop_bit 1 v) h = bit v (Suc h)" by (simp add: bit_simps)
    with d h(1) have "bit v (Suc h)" by simp
    with na obtain j where "j \<ge> Suc h" "bit pl j" unfolding noAbove_def by blast
    with h(2) show False by (simp add: Suc_le_eq)
  qed
qed

lemma funpow_nonzero:
  assumes pl: "pl \<noteq> 0"
  shows "noAbove pl v \<Longrightarrow> v \<noteq> 0 \<Longrightarrow> (mulX pl ^^ n) v \<noteq> 0 \<and> noAbove pl ((mulX pl ^^ n) v)"
proof (induction n)
  case 0 then show ?case by simp
next
  case (Suc n)
  then have "(mulX pl ^^ n) v \<noteq> 0" "noAbove pl ((mulX pl ^^ n) v)" by simp_all
  then show ?case
    by (simp add: mulX_nonzero [OF pl] noAbove_mulX)
qed

lemma xpow_nonzero:
  assumes pl: "(pl :: 'a::len word) \<noteq> 0"
  shows "xpow pl n \<noteq> 0"
proof (cases "n < LENGTH('a)")
  case True
  then show ?thesis by (simp add: xpow_small)
next
  case False
  then obtain m where n: "n = m + (LENGTH('a) - 1)" by (metis add.commute le_add_diff_inverse2 less_imp_diff_less linorder_not_less nat_le_linear diff_le_self le_trans)
  have one: "xpow pl (LENGTH('a) - 1) = 1" by (simp add: xpow_small)
  have x: "xpow pl n = (mulX pl ^^ m) 1"
    unfolding n using one by (simp only: xpow_def funpow_add o_apply)
  from highest_bit [OF pl] have na: "noAbove pl 1"
    unfolding noAbove_def by (auto simp add: bit_1_iff)
  from funpow_nonzero [OF pl na, of m] show ?thesis by (simp add: x)
qed

lemma xpow_length: "xpow pl LENGTH('a) = (pl :: 'a::len word)"
proof -
  have one: "xpow pl (LENGTH('a) - 1) = 1" by (simp add: xpow_small)
  have "xpow pl (Suc (LENGTH('a) - 1)) = mulX pl (xpow pl (LENGTH('a) - 1))"
    by (simp only: xpow_def funpow.simps o_apply)
  also have "\<dots> = pl" unfolding one by (simp add: mulX_def)
  finally show ?thesis by simp
qed

lemma multModP_poly: "poly p = poly q \<Longrightarrow> multModP p a b = multModP q a b"
  by (simp add: multModP_eq)

lemma makePoly_loop_inv:
  "makePoly_loop p v n = Inr q \<Longrightarrow> 1 \<le> n \<Longrightarrow> length (x2nTbl p) = LENGTH('a) \<Longrightarrow>
   v = x2nTbl p ! (n - 1) \<Longrightarrow>
   poly q = poly p \<and> stdlib q = stdlib p \<and> length (x2nTbl q) = LENGTH('a) \<and>
   (\<forall>i<n. x2nTbl q ! i = x2nTbl p ! i) \<and>
   (\<forall>i. n \<le> i \<and> i < LENGTH('a) \<longrightarrow>
        multModP p (x2nTbl q ! (i - 1)) (x2nTbl q ! (i - 1)) = Inr (x2nTbl q ! i))"
  for p :: "'a::len word Poly"
proof (induction p v n rule: makePoly_loop.induct)
  case (1 p v n)
  show ?case
  proof (cases "n < LENGTH('a)")
    case False
    with "1.prems"(1) have "q = p" by (subst (asm) makePoly_loop.simps) simp
    with False "1.prems"(3) show ?thesis by auto
  next
    case True
    from "1.prems"(1) True obtain v' where m: "multModP p v v = Inr v'"
      and r: "makePoly_loop (p\<lparr>x2nTbl := (x2nTbl p)[n := v']\<rparr>) v' (Suc n) = Inr q"
      by (subst (asm) makePoly_loop.simps) (auto split: sum.splits)
    let ?p' = "p\<lparr>x2nTbl := (x2nTbl p)[n := v']\<rparr>"
    have len: "length (x2nTbl ?p') = LENGTH('a)" using "1.prems"(3) by simp
    have vv: "v' = x2nTbl ?p' ! (Suc n - 1)" using True "1.prems"(3) by simp
    from "1.IH" [OF True m r _ len vv]
    have IH: "poly q = poly ?p'" "stdlib q = stdlib ?p'" "length (x2nTbl q) = LENGTH('a)"
      "\<forall>i<Suc n. x2nTbl q ! i = x2nTbl ?p' ! i"
      "\<forall>i. Suc n \<le> i \<and> i < LENGTH('a) \<longrightarrow>
        multModP ?p' (x2nTbl q ! (i - 1)) (x2nTbl q ! (i - 1)) = Inr (x2nTbl q ! i)"
      by simp_all
    have low: "\<forall>i<n. x2nTbl q ! i = x2nTbl p ! i"
      using IH(4) by (auto simp add: less_Suc_eq)
    have atn: "x2nTbl q ! n = v'" using IH(4) True "1.prems"(3) by simp
    have prev: "x2nTbl q ! (n - 1) = v" using low "1.prems"(2,4) by simp
    have sq: "\<forall>i. n \<le> i \<and> i < LENGTH('a) \<longrightarrow>
        multModP p (x2nTbl q ! (i - 1)) (x2nTbl q ! (i - 1)) = Inr (x2nTbl q ! i)"
    proof (intro allI impI)
      fix i assume i: "n \<le> i \<and> i < LENGTH('a)"
      show "multModP p (x2nTbl q ! (i - 1)) (x2nTbl q ! (i - 1)) = Inr (x2nTbl q ! i)"
      proof (cases "i = n")
        case True
        then show ?thesis by (simp only: prev atn m)
      next
        case False
        with i have "Suc n \<le> i \<and> i < LENGTH('a)" by simp
        with IH(5) have "multModP ?p' (x2nTbl q ! (i - 1)) (x2nTbl q ! (i - 1)) = Inr (x2nTbl q ! i)"
          by blast
        moreover have "poly ?p' = poly p" by simp
        ultimately show ?thesis by (simp only: multModP_poly [of ?p' p])
      qed
    qed
    from IH(1-3) low sq show ?thesis by simp
  qed
qed

lemma makePoly_inv:
  assumes "makePoly pl = Inr (p :: 'a::len word Poly)"
  shows "poly p = pl \<and> stdlib p = MakeTable pl \<and> length (x2nTbl p) = LENGTH('a) \<and>
         x2nTbl p ! 0 = push_bit (LENGTH('a) - 2) 1 \<and>
         (\<forall>i. 1 \<le> i \<and> i < LENGTH('a) \<longrightarrow>
            multModP p (x2nTbl p ! (i - 1)) (x2nTbl p ! (i - 1)) = Inr (x2nTbl p ! i))"
proof -
  let ?v = "push_bit (LENGTH('a) - 2) 1 :: 'a word"
  let ?p0 = "\<lparr>poly = pl, x2nTbl = (replicate LENGTH('a) 0)[0 := ?v], stdlib = MakeTable pl\<rparr>"
  from assms have r: "makePoly_loop ?p0 ?v 1 = Inr p"
    by (simp add: makePoly_def Let_def)
  have inv: "poly p = poly ?p0 \<and> stdlib p = stdlib ?p0 \<and> length (x2nTbl p) = LENGTH('a) \<and>
   (\<forall>i<1. x2nTbl p ! i = x2nTbl ?p0 ! i) \<and>
   (\<forall>i. 1 \<le> i \<and> i < LENGTH('a) \<longrightarrow>
        multModP ?p0 (x2nTbl p ! (i - 1)) (x2nTbl p ! (i - 1)) = Inr (x2nTbl p ! i))"
    by (rule makePoly_loop_inv [OF r]) simp_all
  then have pp: "poly p = poly ?p0" by blast
  from inv have "x2nTbl p ! 0 = x2nTbl ?p0 ! 0" by simp
  then have z: "x2nTbl p ! 0 = ?v" by simp
  from inv z show ?thesis
    by (simp add: multModP_poly [OF pp])
qed


lemma makePoly_poly: "makePoly pl = Inr p \<Longrightarrow> poly p = pl"
  by (drule makePoly_inv) simp

lemma makePoly_stdlib: "makePoly pl = Inr p \<Longrightarrow> stdlib p = MakeTable pl"
  by (drule makePoly_inv) simp

lemma makePoly_length: "makePoly pl = Inr (p :: 'a::len word Poly) \<Longrightarrow> length (x2nTbl p) = LENGTH('a)"
  by (drule makePoly_inv) simp

lemma makePoly_entry0:
  "makePoly pl = Inr (p :: 'a::len word Poly) \<Longrightarrow> x2nTbl p ! 0 = push_bit (LENGTH('a) - 2) 1"
  by (drule makePoly_inv) simp

lemma makePoly_square:
  "makePoly pl = Inr (p :: 'a::len word Poly) \<Longrightarrow> Suc i < LENGTH('a) \<Longrightarrow>
   multModP p (x2nTbl p ! i) (x2nTbl p ! i) = Inr (x2nTbl p ! Suc i)"
proof -
  assume mk: "makePoly pl = Inr p" and i: "Suc i < LENGTH('a)"
  from makePoly_inv [OF mk]
  have "\<forall>i. 1 \<le> i \<and> i < LENGTH('a) \<longrightarrow>
            multModP p (x2nTbl p ! (i - 1)) (x2nTbl p ! (i - 1)) = Inr (x2nTbl p ! i)"
    by (elim conjE)
  from this [rule_format, of "Suc i"] i show ?thesis by simp
qed

lemma makePoly_table:
  assumes mk: "makePoly pl = Inr (p :: 'a::len word Poly)" and w: "2 \<le> LENGTH('a)"
  shows "i < LENGTH('a) \<Longrightarrow> x2nTbl p ! i = xpow pl (2 ^ i)"
proof (induction i)
  case 0
  have "xpow pl 1 = (2 :: 'a word) ^ (LENGTH('a) - 1 - 1)"
    by (rule xpow_small) (use w in simp)
  moreover have "x2nTbl p ! 0 = push_bit (LENGTH('a) - 2) 1"
    using mk by (rule makePoly_entry0)
  ultimately show ?case by (simp add: push_bit_of_1 numeral_2_eq_2)
next
  case (Suc i)
  then have IH: "x2nTbl p ! i = xpow pl (2 ^ i)" by simp
  have pp: "poly p = pl" using mk by (rule makePoly_poly)
  have "multModP p (x2nTbl p ! i) (x2nTbl p ! i) = Inr (x2nTbl p ! Suc i)"
    using mk Suc.prems by (rule makePoly_square)
  then have "multModP p (xpow pl (2 ^ i)) (xpow pl (2 ^ i)) = Inr (x2nTbl p ! Suc i)"
    by (simp add: IH)
  then have "x2nTbl p ! Suc i = mulP pl (xpow pl (2 ^ i)) (xpow pl (2 ^ i))"
    by (simp add: multModP_eq pp split: if_splits)
  moreover have "(2 :: nat) ^ Suc i = 2 ^ i + 2 ^ i" by simp
  ultimately show ?case by (simp only: xpow_add)
qed

lemma makePoly_table_nonzero:
  assumes mk: "makePoly pl = Inr (p :: 'a::len word Poly)" and i: "Suc i < LENGTH('a)"
  shows "x2nTbl p ! i \<noteq> 0"
proof -
  have "multModP p (x2nTbl p ! i) (x2nTbl p ! i) = Inr (x2nTbl p ! Suc i)"
    using mk i by (rule makePoly_square)
  then show ?thesis by (auto simp add: multModP_eq split: if_splits)
qed

lemma makePoly_poly_nonzero:
  assumes mk: "makePoly pl = Inr (p :: 'a::len word Poly)"
    and w: "LENGTH('a) = 32 \<or> LENGTH('a) = 64"
  shows "pl \<noteq> 0"
proof -
  from w obtain e where e: "LENGTH('a) = 2 ^ e" "Suc e < LENGTH('a)"
  proof
    assume l: "LENGTH('a) = 32"
    then have "LENGTH('a) = 2 ^ 5" "Suc 5 < LENGTH('a)" by simp_all
    then show ?thesis by (rule that)
  next
    assume l: "LENGTH('a) = 64"
    then have "LENGTH('a) = 2 ^ 6" "Suc 6 < LENGTH('a)" by simp_all
    then show ?thesis by (rule that)
  qed
  have w2: "2 \<le> LENGTH('a)" using w by auto
  have "x2nTbl p ! e = xpow pl (2 ^ e)"
    by (rule makePoly_table [OF mk w2]) (use e in simp)
  also have "\<dots> = pl" by (simp only: e(1) [symmetric] xpow_length)
  finally have "x2nTbl p ! e = pl" .
  with makePoly_table_nonzero [OF mk e(2)] show ?thesis by simp
qed

lemma makePoly_loop_succeeds:
  "poly p \<noteq> 0 \<Longrightarrow> 1 \<le> n \<Longrightarrow> v = xpow (poly p) (2 ^ (n - 1)) \<Longrightarrow> \<exists>q. makePoly_loop p v n = Inr q"
  for p :: "'a::len word Poly"
proof (induction p v n rule: makePoly_loop.induct)
  case (1 p v n)
  show ?case
  proof (cases "n < LENGTH('a)")
    case False
    then show ?thesis by (subst makePoly_loop.simps) simp
  next
    case True
    have vz: "v \<noteq> 0" using "1.prems"(1,3) by (simp add: xpow_nonzero)
    let ?v' = "mulP (poly p) v v"
    have m: "multModP p v v = Inr ?v'" using vz by (simp add: multModP_eq)
    have "2 ^ (n - 1) + 2 ^ (n - 1) = (2 :: nat) ^ n"
      using "1.prems"(2) by (cases n) simp_all
    then have v': "?v' = xpow (poly p) (2 ^ (Suc n - 1))"
      using "1.prems"(3) by (simp add: xpow_add)
    let ?p' = "p\<lparr>x2nTbl := (x2nTbl p)[n := ?v']\<rparr>"
    have "\<exists>q. makePoly_loop ?p' ?v' (Suc n) = Inr q"
      by (rule "1.IH" [OF True m]) (use "1.prems"(1) v' in simp_all)
    then show ?thesis
      using True m by (subst makePoly_loop.simps) simp
  qed
qed

lemma makePoly_succeeds:
  assumes "(pl :: 'a::len word) \<noteq> 0" and w: "2 \<le> LENGTH('a)"
  shows "\<exists>p. makePoly pl = Inr p"
proof -
  have "xpow pl 1 = (2 :: 'a word) ^ (LENGTH('a) - 1 - 1)"
    by (rule xpow_small) (use w in simp)
  then have v: "push_bit (LENGTH('a) - 2) 1 = xpow pl (2 ^ (1 - 1))"
    by (simp add: push_bit_of_1 numeral_2_eq_2)
  let ?p0 = "\<lparr>poly = pl, x2nTbl = (replicate LENGTH('a) 0)[0 := push_bit (LENGTH('a) - 2) 1], stdlib = MakeTable pl\<rparr>"
  have "\<exists>q. makePoly_loop ?p0 (push_bit (LENGTH('a) - 2) 1) 1 = Inr q"
    by (rule makePoly_loop_succeeds) (use assms v in simp_all)
  then show ?thesis by (simp add: makePoly_def Let_def)
qed

lemma makePoly_zero:
  assumes w: "LENGTH('a) = 32 \<or> LENGTH('a) = 64"
  shows "makePoly (0 :: 'a::len word) = Inl InvalidState"
proof (cases "makePoly (0 :: 'a word)")
  case (Inl e)
  then show ?thesis by (cases e) simp
next
  case (Inr p)
  from makePoly_poly_nonzero [OF Inr w] show ?thesis by simp
qed

section \<open>The table of makePoly and the constructor\<close>

lemma IEEE_succeeds: "makePoly IEEE_const = Inr (projr (makePoly IEEE_const))"
proof -
  have "IEEE_const \<noteq> 0" by (simp add: IEEE_const_def)
  then have "\<exists>p. makePoly IEEE_const = Inr p" by (rule makePoly_succeeds) simp
  then show ?thesis by auto
qed

text \<open>
  C6. For every Poly that \<open>makePoly\<close> constructs, the power table has exactly \<open>W\<close>
  entries, and for every \<open>i\<close> from 1 to \<open>W - 1\<close> entry \<open>i\<close> is
  \<open>multModP(powerTable[i-1], powerTable[i-1])\<close>.
\<close>

theorem makePoly_table_squares:
  "makePoly pl = Inr (p :: 'a::len word Poly) \<Longrightarrow>
   length (x2nTbl p) = LENGTH('a) \<and>
   (\<forall>i. 1 \<le> i \<and> i < LENGTH('a) \<longrightarrow>
      multModP p (x2nTbl p ! (i - 1)) (x2nTbl p ! (i - 1)) = Inr (x2nTbl p ! i))"
  by (drule makePoly_inv) simp

theorem makePoly_table_squares_witness:
  "makePoly IEEE_const = Inr (projr (makePoly IEEE_const)) \<and>
   length (x2nTbl (projr (makePoly IEEE_const))) = 32 \<and>
   multModP (projr (makePoly IEEE_const)) (x2nTbl (projr (makePoly IEEE_const)) ! 0)
      (x2nTbl (projr (makePoly IEEE_const)) ! 0) = Inr (x2nTbl (projr (makePoly IEEE_const)) ! 1)"
proof -
  note t = makePoly_table_squares [OF IEEE_succeeds]
  from t have "length (x2nTbl (projr (makePoly IEEE_const))) = 32" by simp
  moreover from t have "multModP (projr (makePoly IEEE_const)) (x2nTbl (projr (makePoly IEEE_const)) ! (1 - 1))
      (x2nTbl (projr (makePoly IEEE_const)) ! (1 - 1)) = Inr (x2nTbl (projr (makePoly IEEE_const)) ! 1)"
    by (elim conjE allE [of _ 1]) simp
  ultimately show ?thesis using IEEE_succeeds by simp
qed

text \<open>
  C3 as stated: entry 0 of the power table equals \<open>multModP(seed, seed)\<close> with
  \<open>seed = 1 << (W - 2)\<close>. \<open>makePoly\<close> stores the seed itself in entry 0, so for the IEEE
  polynomial entry 0 is \<open>0x40000000\<close> while \<open>multModP(seed, seed)\<close> is \<open>0x20000000\<close>.
\<close>

theorem table_entry0_counterexample:
  "makePoly IEEE_const = Inr (projr (makePoly IEEE_const)) \<and>
   Inr (x2nTbl (projr (makePoly IEEE_const)) ! 0) \<noteq>
     multModP (projr (makePoly IEEE_const)) (push_bit (32 - 2) 1) (push_bit (32 - 2) 1)"
proof -
  let ?p = "projr (makePoly IEEE_const)"
  have e0: "x2nTbl ?p ! 0 = push_bit (32 - 2) 1"
    using makePoly_entry0 [OF IEEE_succeeds] by simp
  have "x2nTbl ?p ! 1 = xpow IEEE_const (2 ^ 1)"
    by (rule makePoly_table [OF IEEE_succeeds]) simp_all
  also have "\<dots> = 2 ^ (32 - 1 - 2)" using xpow_small [of 2 IEEE_const] by simp
  finally have e1: "x2nTbl ?p ! 1 = 2 ^ 29" by simp
  have "multModP ?p (x2nTbl ?p ! 0) (x2nTbl ?p ! 0) = Inr (x2nTbl ?p ! Suc 0)"
    by (rule makePoly_square [OF IEEE_succeeds]) simp
  then have "multModP ?p (push_bit (32 - 2) 1) (push_bit (32 - 2) 1) = Inr (2 ^ 29)"
    using e1 by (simp only: e0 One_nat_def [symmetric])
  then show ?thesis using IEEE_succeeds e0 by simp
qed

text \<open>
  C3, amended. For every polynomial value whose construction returns, at \<open>W = 32\<close> and
  \<open>W = 64\<close>: entry 0 of the power table is the seed \<open>1 << (W - 2)\<close> itself, and
  \<open>multModP(seed, seed)\<close>, which is \<open>1 << (W - 3)\<close> and differs from the seed, is entry 1.
\<close>

theorem table_entry0:
  "makePoly pl = Inr (p :: 'a::len word Poly) \<Longrightarrow> LENGTH('a) = 32 \<or> LENGTH('a) = 64 \<Longrightarrow>
   x2nTbl p ! 0 = push_bit (LENGTH('a) - 2) 1 \<and>
   multModP p (push_bit (LENGTH('a) - 2) 1) (push_bit (LENGTH('a) - 2) 1) = Inr (x2nTbl p ! 1) \<and>
   x2nTbl p ! 1 = push_bit (LENGTH('a) - 3) 1 \<and>
   x2nTbl p ! 1 \<noteq> x2nTbl p ! 0"
proof -
  assume mk: "makePoly pl = Inr p" and w: "LENGTH('a) = 32 \<or> LENGTH('a) = 64"
  have w3: "3 \<le> LENGTH('a)" using w by auto
  have e0: "x2nTbl p ! 0 = push_bit (LENGTH('a) - 2) 1" using mk by (rule makePoly_entry0)
  have "multModP p (x2nTbl p ! 0) (x2nTbl p ! 0) = Inr (x2nTbl p ! Suc 0)"
    by (rule makePoly_square [OF mk]) (use w3 in simp)
  then have sq: "multModP p (push_bit (LENGTH('a) - 2) 1) (push_bit (LENGTH('a) - 2) 1) = Inr (x2nTbl p ! 1)"
    by (simp only: e0 One_nat_def [symmetric])
  have "x2nTbl p ! 1 = xpow pl (2 ^ 1)"
    by (rule makePoly_table [OF mk]) (use w3 in simp_all)
  also have "\<dots> = 2 ^ (LENGTH('a) - 1 - 2)" using xpow_small [of 2 pl] w3 by simp
  also have "\<dots> = push_bit (LENGTH('a) - 3) 1" by (simp add: push_bit_of_1 numeral_3_eq_3)
  finally have e1: "x2nTbl p ! 1 = push_bit (LENGTH('a) - 3) 1" .
  have ne: "(push_bit (LENGTH('a) - 3) 1 :: 'a word) \<noteq> push_bit (LENGTH('a) - 2) 1"
  proof
    assume "(push_bit (LENGTH('a) - 3) 1 :: 'a word) = push_bit (LENGTH('a) - 2) 1"
    then have "bit (push_bit (LENGTH('a) - 3) 1 :: 'a word) (LENGTH('a) - 3) =
               bit (push_bit (LENGTH('a) - 2) 1 :: 'a word) (LENGTH('a) - 3)" by simp
    then show False using w3 by (simp add: bit_simps)
  qed
  from e0 sq e1 ne show ?thesis by simp
qed

theorem table_entry0_witness:
  "makePoly IEEE_const = Inr (projr (makePoly IEEE_const)) \<and> (LENGTH(32) = 32 \<or> LENGTH(32) = 64) \<and>
   x2nTbl (projr (makePoly IEEE_const)) ! 0 = 0x40000000 \<and>
   multModP (projr (makePoly IEEE_const)) 0x40000000 0x40000000 = Inr (x2nTbl (projr (makePoly IEEE_const)) ! 1) \<and>
   x2nTbl (projr (makePoly IEEE_const)) ! 1 = 0x20000000"
proof -
  have w: "LENGTH(32) = 32 \<or> LENGTH(32) = 64" by simp
  from table_entry0 [OF IEEE_succeeds w] IEEE_succeeds show ?thesis by simp
qed

text \<open>
  C8, at the polynomial value 0, which is none of the well-known constants: \<open>MakePoly(0)\<close>
  panics with the invalid state of \<open>multModP\<close>, at both widths, instead of returning a
  Poly with \<open>Polynomial() = 0\<close>. Entry 5 (entry 6 at \<open>W = 64\<close>) of the table is
  \<open>x^W\<close> modulo the polynomial, which is the polynomial value itself, and the next
  squaring calls \<open>multModP\<close> with a zero first argument.
\<close>

theorem MakePoly_zero_panics:
  "MakePoly32 0 st = Inl InvalidState \<and> MakePoly64 0 st' = Inl InvalidState"
proof -
  have a: "makePoly (0 :: 32 word) = Inl InvalidState" by (rule makePoly_zero) simp
  have b: "makePoly (0 :: 64 word) = Inl InvalidState" by (rule makePoly_zero) simp
  show ?thesis
    by (simp add: MakePoly32_def MakePoly64_def a b IEEE_const_def Castagnoli_const_def
        Koopman_const_def ISO_const_def ECMA_const_def)
qed

section \<open>The table-driven update as a multiplication\<close>

lemma tableStep_mulX: "tableStep pl crc = mulX pl crc"
proof -
  have "(crc AND 1 = 1) = bit crc 0"
    by (simp add: and_one_eq bit_0 mod_2_eq_odd)
  then show ?thesis by (simp add: tableStep_def mulX_def)
qed

lemma MakeTable_nth: "i < 256 \<Longrightarrow> MakeTable pl ! i = (mulX pl ^^ 8) (of_nat i)"
proof -
  assume i: "i < 256"
  have "tableStep pl = mulX pl" by (rule ext) (rule tableStep_mulX)
  then show ?thesis using i by (simp add: MakeTable_def del: upt.simps funpow.simps)
qed

lemma funpow_mulX_shift: "take_bit j u = 0 \<Longrightarrow> (mulX pl ^^ j) u = drop_bit j u"
proof (induction j arbitrary: u)
  case 0 show ?case by simp
next
  case (Suc j)
  have b0: "\<not> bit u 0"
  proof
    assume "bit u 0"
    then have "bit (take_bit (Suc j) u) 0" by (simp add: bit_take_bit_iff)
    with Suc.prems show False by simp
  qed
  have t: "take_bit j (drop_bit 1 u) = 0"
  proof (rule bit_word_eqI)
    fix n assume "n < LENGTH('a)"
    have "bit (take_bit (Suc j) u) (Suc n) = False" using Suc.prems by simp
    then show "bit (take_bit j (drop_bit 1 u)) n = bit (0 :: 'a word) n"
      by (simp add: bit_simps)
  qed
  have "(mulX pl ^^ Suc j) u = (mulX pl ^^ j) (mulX pl u)" by (simp only: funpow_Suc_right o_apply)
  also have "\<dots> = (mulX pl ^^ j) (drop_bit 1 u)" using b0 by (simp add: mulX_def)
  also have "\<dots> = drop_bit j (drop_bit 1 u)" using t by (rule Suc.IH)
  also have "\<dots> = drop_bit (Suc j) u" by (simp add: drop_bit_drop_bit)
  finally show ?case .
qed

lemma updateByte_mulX:
  assumes w: "8 \<le> LENGTH('a)"
  shows "updateByte (MakeTable pl) v (crc :: 'a::len word) = (mulX pl ^^ 8) (crc XOR ucast v)"
proof -
  let ?c = "crc XOR ucast v"
  let ?lo = "take_bit 8 ?c"
  let ?hi = "?c XOR ?lo"
  let ?i = "unat ((ucast crc :: 8 word) XOR v)"
  have i: "?i < 256" using unsigned_less [of "(ucast crc :: 8 word) XOR v", where 'a = nat] by simp
  have lo: "(of_nat ?i :: 'a word) = ?lo"
    by (rule bit_word_eqI) (auto simp add: bit_simps dest: bit_imp_le_length)
  have hi0: "take_bit 8 ?hi = 0"
    by (rule bit_word_eqI) (auto simp add: bit_simps dest: bit_imp_le_length)
  have hid: "drop_bit 8 ?hi = drop_bit 8 crc"
    by (rule bit_word_eqI) (auto simp add: bit_simps dest: bit_imp_le_length)
  have "(mulX pl ^^ 8) ?c = (mulX pl ^^ 8) (?lo XOR ?hi)"
    by (simp add: xor.left_commute)
  also have "\<dots> = (mulX pl ^^ 8) ?lo XOR (mulX pl ^^ 8) ?hi" by (rule funpow_mulX_xor)
  also have "(mulX pl ^^ 8) ?hi = drop_bit 8 crc"
    using funpow_mulX_shift [OF hi0, of pl] hid by simp
  also have "(mulX pl ^^ 8) ?lo = MakeTable pl ! ?i"
    using MakeTable_nth [OF i, of pl] lo by simp
  finally show ?thesis by (simp add: updateByte_def)
qed

lemma fold_updateByte_xor:
  assumes w: "8 \<le> LENGTH('a)"
  shows "fold (updateByte (MakeTable pl)) data (c XOR d) =
         fold (updateByte (MakeTable pl)) data c XOR (mulX pl ^^ (8 * length data)) (d :: 'a::len word)"
proof (induction data arbitrary: c d)
  case Nil show ?case by simp
next
  case (Cons v data)
  have "updateByte (MakeTable pl) v (c XOR d) = updateByte (MakeTable pl) v c XOR (mulX pl ^^ 8) d"
    by (simp only: updateByte_mulX [OF w] funpow_mulX_xor [symmetric]) (simp add: xor.assoc xor.commute xor.left_commute)
  moreover have "(mulX pl ^^ (8 * length data)) ((mulX pl ^^ 8) d) = (mulX pl ^^ (8 * length (v # data))) d"
  proof -
    have "(mulX pl ^^ (8 * length data + 8)) d = (mulX pl ^^ (8 * length data)) ((mulX pl ^^ 8) d)"
      by (simp only: funpow_add o_apply)
    moreover have "8 * length (v # data) = 8 * length data + 8" by simp
    ultimately show ?thesis by (simp only:)
  qed
  ultimately show ?case by (simp add: Cons.IH del: funpow.simps)
qed

lemma stdUpdate_xor:
  assumes w: "8 \<le> LENGTH('a)"
  shows "stdUpdate s (MakeTable pl) data =
         (mulX pl ^^ (8 * length data)) (s :: 'a::len word) XOR stdUpdate 0 (MakeTable pl) data"
proof -
  have "NOT s = NOT 0 XOR s" by (rule bit_word_eqI) (auto simp add: bit_simps)
  then have "fold (updateByte (MakeTable pl)) data (NOT s) =
      fold (updateByte (MakeTable pl)) data (NOT 0) XOR (mulX pl ^^ (8 * length data)) s"
    by (simp only: fold_updateByte_xor [OF w])
  moreover have "\<And>a b :: 'a word. NOT (a XOR b) = b XOR NOT a"
    by (rule bit_word_eqI) (auto simp add: bit_simps)
  ultimately show ?thesis by (simp add: stdUpdate_def)
qed

lemma stdUpdate_append: "stdUpdate s tab (A @ B) = stdUpdate (stdUpdate s tab A) tab B"
  by (simp add: stdUpdate_def)

section \<open>The loop of x2NModP\<close>

lemma sint_zero_iff: "(n = 0) = (sint (n :: 'a::len word) = 0)"
  by (simp add: signed_eq_0_iff)

lemma and_one_sint: "((n :: 'a::len word) AND 1 \<noteq> 0) = odd (sint n)"
  by (simp add: and_one_bit bit_0 [symmetric] bit_sint_iff del: bit_0)

lemma sint_shift: "sint (signed_drop_bit 1 (n :: 'a::len word)) = sint n div 2"
  by (simp add: sint_signed_drop_bit_eq drop_bit_eq_div)

lemma loop_terminates:
  "0 \<le> sint n \<Longrightarrow> \<exists>r. x2NModP_loop p n k v = Some r"
proof (induction "nat (sint n)" arbitrary: n k v rule: less_induct)
  case less
  show ?case
  proof (cases "n = 0")
    case True
    then show ?thesis by (subst x2NModP_loop.simps) simp
  next
    case False
    then have pos: "0 < sint n" using less.prems by (simp add: sint_zero_iff)
    let ?n' = "signed_drop_bit 1 n"
    have s: "sint ?n' = sint n div 2" by (rule sint_shift)
    have lt: "nat (sint ?n') < nat (sint n)" using pos s by simp
    have ge: "0 \<le> sint ?n'" using pos s by simp
    from less.hyps [OF lt ge] have IH: "\<And>k v. \<exists>r. x2NModP_loop p ?n' k v = Some r" by blast
    show ?thesis
      using False IH
      by (subst x2NModP_loop.simps) (auto split: sum.split)
  qed
qed

lemma loop_negative:
  assumes a: "x2NModP_loop p n k v = Some r"
  shows "sint n < 0 \<longrightarrow> (\<exists>e. r = Inl e)"
proof (rule x2NModP_loop.raw_induct [where P = "\<lambda>p n k v r. sint n < 0 \<longrightarrow> (\<exists>e. r = Inl e)", OF _ a], goal_cases)
  case (1 f p n k v r)
  show ?case
  proof
    assume lt: "sint n < 0"
    then have nz: "n \<noteq> 0" by (auto simp add: sint_zero_iff)
    have "sint n div 2 < 0" using lt by simp
    then have neg: "sint (signed_drop_bit 1 n) < 0" by (simp only: sint_shift)
    have IH: "\<And>k v r. f p (signed_drop_bit 1 n) k v = Some r \<Longrightarrow> \<exists>e. r = Inl e"
      using 1(1) neg by blast
    let ?m = "multModP p (x2nTbl p ! unat (k AND of_nat (LENGTH('a) - 1))) v"
    show "\<exists>e. r = Inl e"
    proof (cases "n AND 1 \<noteq> 0")
      case False
      with 1(2) nz have "f p (signed_drop_bit 1 n) (k + 1) v = Some r" by (simp only: if_False if_True not_False_eq_True not_True_eq_False simp_thms)
      then show ?thesis by (rule IH)
    next
      case True
      show ?thesis
      proof (cases ?m)
        case (Inl e)
        with 1(2) nz True have "Some (Inl e) = Some r" by (simp only: if_False if_True sum.case not_False_eq_True not_True_eq_False simp_thms)
        then show ?thesis by auto
      next
        case (Inr v')
        with 1(2) nz True have "f p (signed_drop_bit 1 n) (k + 1) v' = Some r"
          by (simp only: if_False if_True sum.case not_False_eq_True not_True_eq_False simp_thms)
        then show ?thesis by (rule IH)
      qed
    qed
  qed
qed

lemma index_mod:
  assumes "LENGTH('a) = 32 \<or> LENGTH('a) = 64"
  shows "unat ((k :: 'a::len word) AND of_nat (LENGTH('a) - 1)) = unat k mod LENGTH('a)"
proof -
  from assms obtain e where e: "LENGTH('a) = 2 ^ e"
  proof
    assume "LENGTH('a) = 32" then have "LENGTH('a) = 2 ^ 5" by simp then show ?thesis by (rule that)
  next
    assume "LENGTH('a) = 64" then have "LENGTH('a) = 2 ^ 6" by simp then show ?thesis by (rule that)
  qed
  have "(of_nat (LENGTH('a) - 1) :: 'a word) = mask e"
    by (simp add: e mask_eq_exp_minus_1 of_nat_diff)
  then have "k AND of_nat (LENGTH('a) - 1) = take_bit e k"
    by (simp only: take_bit_eq_mask)
  then have "unat (k AND of_nat (LENGTH('a) - 1)) = take_bit e (unat k)"
    by (simp only: unsigned_take_bit_eq)
  then show ?thesis
    by (simp only: take_bit_eq_mod e)
qed

lemma succ_mod:
  assumes "LENGTH('a) = 32 \<or> LENGTH('a) = 64"
  shows "unat ((k :: 'a::len word) + 1) mod LENGTH('a) = (unat k + 1) mod LENGTH('a)"
proof -
  have d: "LENGTH('a) dvd 2 ^ LENGTH('a)"
    using assms
  proof
    assume l: "LENGTH('a) = 32"
    have "(32::nat) dvd 2 ^ 32" by simp
    with l show ?thesis by simp
  next
    assume l: "LENGTH('a) = 64"
    have "(64::nat) dvd 2 ^ 64" by simp
    with l show ?thesis by simp
  qed
  have "unat (k + 1) = (unat k + 1) mod 2 ^ LENGTH('a)"
    by (simp add: unat_word_ariths)
  then show ?thesis using d by (simp add: mod_mod_cancel)
qed


lemma loop_spec:
  assumes w: "LENGTH('a) = 32 \<or> LENGTH('a) = 64"
  shows "0 \<le> sint n \<Longrightarrow> unat (k :: 'a::len word) mod LENGTH('a) = k' mod LENGTH('a) \<Longrightarrow>
         x2NModP_loop p n k v = Some (x2NModP_spec p (nat (sint n)) k' v)"
proof (induction "nat (sint n)" arbitrary: n k k' v rule: less_induct)
  case less
  show ?case
  proof (cases "n = 0")
    case True
    then show ?thesis
      by (subst x2NModP_loop.simps, subst x2NModP_spec.simps) simp
  next
    case False
    then have pos: "0 < sint n" using less.prems(1) by (simp add: sint_zero_iff)
    let ?n' = "signed_drop_bit 1 n"
    have s: "sint ?n' = sint n div 2" by (rule sint_shift)
    have lt: "nat (sint ?n') < nat (sint n)" using pos s by simp
    have ge: "0 \<le> sint ?n'" using pos s by simp
    have half: "nat (sint n) div 2 = nat (sint ?n')" using pos s by (simp add: nat_div_distrib)
    have km: "unat (k + 1) mod LENGTH('a) = (k' + 1) mod LENGTH('a)"
      using succ_mod [OF w, of k] less.prems(2) by (metis mod_add_cong)
    have IH: "\<And>v. x2NModP_loop p ?n' (k + 1) v = Some (x2NModP_spec p (nat (sint ?n')) (k' + 1) v)"
      by (rule less.hyps [OF lt ge km])
    have idx: "unat (k AND of_nat (LENGTH('a) - 1)) = k' mod LENGTH('a)"
      using index_mod [OF w, of k] less.prems(2) by simp
    have od: "(n AND 1 \<noteq> 0) = odd (nat (sint n))"
      using pos by (simp add: and_one_sint even_nat_iff)
    have nz: "nat (sint n) \<noteq> 0" using pos by simp
    show ?thesis
      by (subst x2NModP_loop.simps, subst x2NModP_spec.simps)
         (simp only: False nz if_False od idx IH half split: sum.split, simp)
  qed
qed

lemma x2NModP_refines:
  assumes w: "LENGTH('a) = 32 \<or> LENGTH('a) = 64" and n: "0 \<le> sint n"
  shows "x2NModP p n (k :: 'a::len word) =
           Some (x2NModP_spec p (nat (sint n)) (unat k) (push_bit (LENGTH('a) - 1) 1))"
  unfolding x2NModP_def by (rule loop_spec [OF w n]) simp

lemma x2NModP_zero: "x2NModP p 0 k = Some (Inr (push_bit (LENGTH('a) - 1) 1 :: 'a::len word))"
  unfolding x2NModP_def by (subst x2NModP_loop.simps) simp

text \<open>
  C5. For every Poly, every non-negative exponent \<open>n\<close> and every index \<open>k\<close>, at both
  widths: \<open>x2NModP(n, k)\<close> is the fold of the specification started from \<open>1 << (W - 1)\<close>,
  which multiplies \<open>powerTable[k mod W]\<close> in exactly when the current low bit of \<open>n\<close> is
  set, halves \<open>n\<close> and increments \<open>k\<close>; and \<open>x2NModP(0, k)\<close> is \<open>1 << (W - 1)\<close>.
\<close>

theorem x2NModP_fold:
  "LENGTH('a) = 32 \<or> LENGTH('a) = 64 \<Longrightarrow> 0 \<le> sint n \<Longrightarrow>
   x2NModP p n (k :: 'a::len word) =
     Some (x2NModP_spec p (nat (sint n)) (unat k) (push_bit (LENGTH('a) - 1) 1)) \<and>
   x2NModP p 0 k = Some (Inr (push_bit (LENGTH('a) - 1) 1))"
  by (simp only: x2NModP_refines x2NModP_zero simp_thms)

theorem x2NModP_fold_witness:
  "(LENGTH(32) = 32 \<or> LENGTH(32) = 64) \<and> 0 \<le> sint (5 :: 64 word) \<and>
   x2NModP (projr (makePoly IEEE_const)) 5 (3 :: 32 word) =
     Some (x2NModP_spec (projr (makePoly IEEE_const)) (nat (sint (5 :: 64 word))) (unat (3 :: 32 word))
            (push_bit (LENGTH(32) - 1) 1)) \<and>
   x2NModP (projr (makePoly IEEE_const)) 0 (3 :: 32 word) = Some (Inr (push_bit (LENGTH(32) - 1) 1))"
proof -
  have w: "LENGTH(32) = 32 \<or> LENGTH(32) = 64" by simp
  have n: "0 \<le> sint (5 :: 64 word)" by simp
  from x2NModP_fold [OF w n, of "projr (makePoly IEEE_const)" 3] w n show ?thesis by blast
qed

text \<open>
  C9. The loop of \<open>x2NModP\<close> terminates for every non-negative \<open>n\<close>: the arithmetic shift
  keeps a positive \<open>n\<close> non-negative and makes it strictly smaller. \<open>Combine\<close> returns for
  every input, and with a negative \<open>n\<close> it returns from its guards without calling
  \<open>x2NModP\<close>, which for a negative \<open>n\<close> never returns a value.
\<close>

theorem x2NModP_terminates:
  "(0 \<le> sint n \<longrightarrow> (\<exists>r. x2NModP p n k = Some r)) \<and>
   (0 < sint n \<longrightarrow> 0 \<le> sint (signed_drop_bit 1 n) \<and> sint (signed_drop_bit 1 n) < sint n) \<and>
   (\<exists>r. Combine p a b n = Some r) \<and>
   (sint n < 0 \<longrightarrow> (\<forall>w. x2NModP p n k \<noteq> Some (Inr w)) \<and>
                     Combine p a b n = Some (Inr (if a = 0 then b else a)))"
proof (intro conjI impI allI)
  assume "0 \<le> sint n"
  then show "\<exists>r. x2NModP p n k = Some r" unfolding x2NModP_def by (rule loop_terminates)
next
  assume "0 < sint n"
  then have "0 \<le> sint n div 2" by simp
  then show "0 \<le> sint (signed_drop_bit 1 n)" by (simp only: sint_shift)
next
  assume "0 < sint n"
  then have "sint n div 2 < sint n" by simp
  then show "sint (signed_drop_bit 1 n) < sint n" by (simp only: sint_shift)
next
  show "\<exists>r. Combine p a b n = Some r"
  proof (cases "a = 0 \<or> sint n \<le> 0")
    case True
    then show ?thesis by (auto simp add: Combine_def)
  next
    case False
    then have "0 \<le> sint n" by simp
    then obtain r where "x2NModP_loop p n 3 (push_bit (LENGTH('a) - 1) 1) = Some r"
      using loop_terminates by blast
    with False show ?thesis
      by (auto simp add: Combine_def x2NModP_def split: sum.split)
  qed
next
  fix w assume neg: "sint n < 0"
  show "x2NModP p n k \<noteq> Some (Inr w)"
  proof
    assume "x2NModP p n k = Some (Inr w)"
    then have "x2NModP_loop p n k (push_bit (LENGTH('a) - 1) 1) = Some (Inr w)"
      by (simp only: x2NModP_def)
    from loop_negative [OF this] neg show False by simp
  qed
next
  assume "sint n < 0"
  then show "Combine p a b n = Some (Inr (if a = 0 then b else a))"
    by (simp add: Combine_def)
qed

theorem x2NModP_terminates_witness:
  "0 \<le> sint (5 :: 64 word) \<and> 0 < sint (5 :: 64 word) \<and> sint (- 5 :: 64 word) < 0 \<and>
   (\<exists>r. x2NModP (projr (makePoly IEEE_const)) 5 3 = Some r) \<and>
   0 \<le> sint (signed_drop_bit 1 (5 :: 64 word)) \<and>
   sint (signed_drop_bit 1 (5 :: 64 word)) < sint (5 :: 64 word) \<and>
   (\<exists>r. Combine (projr (makePoly IEEE_const)) 7 9 5 = Some r) \<and>
   (\<forall>w. x2NModP (projr (makePoly IEEE_const)) (- 5) 3 \<noteq> Some (Inr w)) \<and>
   Combine (projr (makePoly IEEE_const)) 7 9 (- 5) = Some (Inr 7)"
proof -
  have pos: "0 \<le> sint (5 :: 64 word)" "0 < sint (5 :: 64 word)" by simp_all
  have neg: "sint (- 5 :: 64 word) < 0" by simp
  note t1 = x2NModP_terminates [of 5 "projr (makePoly IEEE_const)" 3 7 9]
  note t2 = x2NModP_terminates [of "- 5" "projr (makePoly IEEE_const)" 3 7 9]
  from t1 pos have a: "\<exists>r. x2NModP (projr (makePoly IEEE_const)) 5 3 = Some r" by blast
  from t1 pos have b: "0 \<le> sint (signed_drop_bit 1 (5 :: 64 word)) \<and>
      sint (signed_drop_bit 1 (5 :: 64 word)) < sint (5 :: 64 word)" by blast
  from t1 have c: "\<exists>r. Combine (projr (makePoly IEEE_const)) 7 9 5 = Some r" by blast
  from t2 neg have d: "\<forall>w. x2NModP (projr (makePoly IEEE_const)) (- 5) 3 \<noteq> Some (Inr w)" by blast
  from t2 neg have "Combine (projr (makePoly IEEE_const)) 7 9 (- 5) = Some (Inr (if (7 :: 32 word) = 0 then 9 else 7))"
    by blast
  then have e: "Combine (projr (makePoly IEEE_const)) 7 9 (- 5) = Some (Inr 7)" by simp
  from pos neg a b c d e show ?thesis by blast
qed

section \<open>The equivalence law while the table index does not wrap\<close>

text \<open>
  For a second block shorter than \<open>2^(W - 3)\<close> bytes the loop of \<open>x2NModP\<close> stays below
  index \<open>W\<close>, the exponentiation is \<open>x^(8 * len)\<close> and \<open>Combine\<close> agrees with the sequential
  update.
\<close>

lemma funpow_mulX_zero: "(mulX pl ^^ n) 0 = 0"
  by (induction n) (simp_all add: mulX_zero)

lemma spec_value:
  assumes mk: "makePoly pl = Inr (p :: 'a::len word Poly)" and w2: "2 \<le> LENGTH('a)" and pl: "pl \<noteq> 0"
  shows "n < 2 ^ (LENGTH('a) - k) \<Longrightarrow> k \<le> LENGTH('a) \<Longrightarrow>
         x2NModP_spec p n k v = Inr ((mulX pl ^^ (n * 2 ^ k)) v)"
proof (induction n arbitrary: k v rule: less_induct)
  case (less n)
  show ?case
  proof (cases "n = 0")
    case True
    then show ?thesis by (subst x2NModP_spec.simps) simp
  next
    case False
    have kl: "k < LENGTH('a)"
    proof (rule ccontr)
      assume "\<not> k < LENGTH('a)"
      then have "LENGTH('a) - k = 0" by simp
      with less.prems(1) False show False by simp
    qed
    have pp: "poly p = pl" using mk by (rule makePoly_poly)
    have t: "x2nTbl p ! k = xpow pl (2 ^ k)" using mk w2 kl by (rule makePoly_table)
    have tz: "xpow pl (2 ^ k) \<noteq> 0" using pl by (rule xpow_nonzero)
    have m: "\<And>u. multModP p (x2nTbl p ! (k mod LENGTH('a))) u = Inr ((mulX pl ^^ (2 ^ k)) u)"
      using kl tz by (simp add: t multModP_eq pp mulP_xpow)
    have e: "LENGTH('a) - k = Suc (LENGTH('a) - (k + 1))" using kl by simp
    have h: "n div 2 < 2 ^ (LENGTH('a) - (k + 1))" using less.prems(1) unfolding e by simp
    have hl: "n div 2 < n" using False by simp
    have k1: "k + 1 \<le> LENGTH('a)" using kl by simp
    have IH: "\<And>u. x2NModP_spec p (n div 2) (k + 1) u = Inr ((mulX pl ^^ (n div 2 * 2 ^ (k + 1))) u)"
      by (rule less.IH [OF hl h k1])
    show ?thesis
    proof (cases "odd n")
      case True
      have "n div 2 * 2 ^ (k + 1) + 2 ^ k = n * 2 ^ k"
      proof -
        from True obtain q where q: "n = 2 * q + 1" by (auto elim: oddE)
        show ?thesis unfolding q by (simp add: algebra_simps)
      qed
      moreover have "(mulX pl ^^ (n div 2 * 2 ^ (k + 1) + 2 ^ k)) v =
          (mulX pl ^^ (n div 2 * 2 ^ (k + 1))) ((mulX pl ^^ (2 ^ k)) v)"
        by (simp only: funpow_add o_apply)
      ultimately have "(mulX pl ^^ (n div 2 * 2 ^ (k + 1))) ((mulX pl ^^ (2 ^ k)) v) = (mulX pl ^^ (n * 2 ^ k)) v"
        by (simp only:)
      with True False show ?thesis
        by (subst x2NModP_spec.simps) (simp only: m IH sum.case if_True if_False simp_thms)
    next
      case False
      have "n div 2 * 2 ^ (k + 1) = n * 2 ^ k"
      proof -
        from False obtain q where q: "n = 2 * q" by (auto elim: evenE)
        show ?thesis unfolding q by simp
      qed
      with False \<open>n \<noteq> 0\<close> show ?thesis
        by (subst x2NModP_spec.simps) (simp only: IH if_True if_False simp_thms)
    qed
  qed
qed


lemma sint_of_nat_small: "m < 2 ^ 63 \<Longrightarrow> sint (of_nat m :: 64 word) = int m"
proof -
  assume m: "m < 2 ^ 63"
  then have "int m < 2 ^ 63" by (metis of_nat_less_iff of_nat_numeral of_nat_power)
  then have "signed_take_bit 63 (int m) = int m"
    by (intro signed_take_bit_int_eq_self) simp_all
  then show ?thesis by (simp add: signed_of_nat)
qed

lemma x2NModP_value:
  assumes mk: "makePoly pl = Inr (p :: 'a::len word Poly)"
    and w: "LENGTH('a) = 32 \<or> LENGTH('a) = 64"
    and len: "m < 2 ^ (LENGTH('a) - 3)"
  shows "x2NModP p (of_nat m) 3 = Some (Inr (xpow pl (8 * m)))"
proof -
  have w2: "2 \<le> LENGTH('a)" and w3: "3 \<le> LENGTH('a)" using w by auto
  have pl: "pl \<noteq> 0" using mk w by (rule makePoly_poly_nonzero)
  have "(2 :: nat) ^ (LENGTH('a) - 3) \<le> 2 ^ 63"
    using w by (intro power_increasing) auto
  with len have m63: "m < 2 ^ 63" by simp
  have s: "sint (of_nat m :: 64 word) = int m" using m63 by (rule sint_of_nat_small)
  then have n: "0 \<le> sint (of_nat m :: 64 word)" by simp
  have u3: "unat (3 :: 'a word) = 3"
  proof -
    have "(3 :: nat) < 2 ^ LENGTH('a)" using w by auto
    then show ?thesis by (simp add: unat_eq_nat_uint take_bit_nat_eq_self unsigned_numeral)
  qed
  have "x2NModP p (of_nat m) (3 :: 'a word) =
        Some (x2NModP_spec p (nat (sint (of_nat m :: 64 word))) (unat (3 :: 'a word))
               (push_bit (LENGTH('a) - 1) 1))"
    using w n by (rule x2NModP_refines)
  also have "x2NModP_spec p (nat (sint (of_nat m :: 64 word))) (unat (3 :: 'a word))
               (push_bit (LENGTH('a) - 1) 1) =
             x2NModP_spec p m 3 (2 ^ (LENGTH('a) - 1))"
    by (simp only: s u3 nat_int push_bit_of_1)
  also have "\<dots> = Inr ((mulX pl ^^ (m * 2 ^ 3)) (2 ^ (LENGTH('a) - 1)))"
    using mk w2 pl len w3 by (rule spec_value)
  also have "(mulX pl ^^ (m * 2 ^ 3)) (2 ^ (LENGTH('a) - 1)) = xpow pl (8 * m)"
    by (simp add: xpow_def mult.commute)
  finally show ?thesis .
qed

lemma Combine_law_bounded:
  assumes mk: "makePoly pl = Inr (p :: 'a::len word Poly)"
    and w: "LENGTH('a) = 32 \<or> LENGTH('a) = 64"
    and len: "length B < 2 ^ (LENGTH('a) - 3)"
  shows "Combine p (Checksum p A) (Update p 0 B) (of_nat (length B)) =
           Some (Inr (Update p (Checksum p A) B))"
proof -
  let ?u = "Checksum p A"
  let ?n = "of_nat (length B) :: 64 word"
  have w8: "8 \<le> LENGTH('a)" using w by auto
  have pp: "poly p = pl" using mk by (rule makePoly_poly)
  have st: "stdlib p = MakeTable pl" using mk by (rule makePoly_stdlib)
  have "(2 :: nat) ^ (LENGTH('a) - 3) \<le> 2 ^ 63"
    using w by (intro power_increasing) auto
  with len have "length B < 2 ^ 63" by simp
  then have s: "sint ?n = int (length B)" by (rule sint_of_nat_small)
  have upd: "Update p ?u B = (mulX pl ^^ (8 * length B)) ?u XOR Update p 0 B"
    unfolding Update_def st using w8 by (rule stdUpdate_xor)
  show ?thesis
  proof (cases "?u = 0")
    case True
    then show ?thesis by (simp add: Combine_def upd funpow_mulX_zero)
  next
    case u: False
    show ?thesis
    proof (cases "B = []")
      case True
      then have "Update p ?u B = ?u" "sint ?n \<le> 0"
        by (simp_all add: Update_def stdUpdate_def)
      with u show ?thesis by (simp add: Combine_def)
    next
      case False
      then have pos: "\<not> sint ?n \<le> 0" by (simp add: s)
      have x: "x2NModP p ?n 3 = Some (Inr (xpow pl (8 * length B)))"
        using mk w len by (rule x2NModP_value)
      have "mulP pl ?u (xpow pl (8 * length B)) = (mulX pl ^^ (8 * length B)) ?u"
        by (simp only: mulP_commute [of pl ?u] mulP_xpow)
      then have m: "multModP p ?u (xpow pl (8 * length B)) = Inr ((mulX pl ^^ (8 * length B)) ?u)"
        using u by (simp add: multModP_eq pp)
      show ?thesis
        using u pos by (simp add: Combine_def x m upd)
    qed
  qed
qed

lemma Combine_law_bounded_Checksum:
  assumes mk: "makePoly pl = Inr (p :: 'a::len word Poly)"
    and w: "LENGTH('a) = 32 \<or> LENGTH('a) = 64"
    and len: "length B < 2 ^ (LENGTH('a) - 3)"
  shows "Combine p (Checksum p A) (Checksum p B) (of_nat (length B)) =
           Some (Inr (Checksum p (A @ B)))"
proof -
  have "Checksum p (A @ B) = Update p (Checksum p A) B"
    by (simp only: Checksum_def Update_def stdUpdate_append)
  moreover have "Checksum p B = Update p 0 B" by (simp only: Checksum_def Update_def)
  ultimately show ?thesis
    using Combine_law_bounded [OF mk w len, of A] by (simp only:)
qed

section \<open>MakePoly away from zero\<close>

lemma MakePoly32_known:
  "MakePoly32 IEEE_const st = IEEE st"
  "MakePoly32 Castagnoli_const st = Castagnoli st"
  "MakePoly32 Koopman_const st = Koopman st"
  by (simp_all add: MakePoly32_def IEEE_const_def Castagnoli_const_def Koopman_const_def)

lemma MakePoly64_known:
  "MakePoly64 ISO_const st = ISO st"
  "MakePoly64 ECMA_const st = ECMA st"
  by (simp_all add: MakePoly64_def ISO_const_def ECMA_const_def)

lemma MakePoly32_other:
  assumes "pl \<noteq> IEEE_const" "pl \<noteq> Castagnoli_const" "pl \<noteq> Koopman_const" "pl \<noteq> 0"
  shows "\<exists>p. MakePoly32 pl st = Inr (Some p, st) \<and> Polynomial p = pl"
proof -
  from assms(4) have "\<exists>p. makePoly pl = Inr p" by (rule makePoly_succeeds) simp
  then obtain p where p: "makePoly pl = Inr p" by blast
  then have "Polynomial p = pl" by (simp add: Polynomial_def makePoly_poly)
  with p assms show ?thesis by (simp add: MakePoly32_def)
qed

lemma MakePoly64_other:
  assumes "pl \<noteq> ISO_const" "pl \<noteq> ECMA_const" "pl \<noteq> 0"
  shows "\<exists>p. MakePoly64 pl st = Inr (Some p, st) \<and> Polynomial p = pl"
proof -
  from assms(3) have "\<exists>p. makePoly pl = Inr p" by (rule makePoly_succeeds) simp
  then obtain p where p: "makePoly pl = Inr p" by blast
  then have "Polynomial p = pl" by (simp add: Polynomial_def makePoly_poly)
  with p assms show ?thesis by (simp add: MakePoly64_def)
qed

section \<open>The equivalence law on a long second block\<close>

lemma sq_step: "xpow pl m = a \<Longrightarrow> mulP pl a a = b \<Longrightarrow> m + m = n \<Longrightarrow> xpow pl n = b"
  using xpow_add [of pl m m] by simp

lemma Castagnoli_succeeds: "makePoly Castagnoli_const = Inr (projr (makePoly Castagnoli_const))"
proof -
  have "Castagnoli_const \<noteq> 0" by (simp add: Castagnoli_const_def)
  then have "\<exists>p. makePoly Castagnoli_const = Inr p" by (rule makePoly_succeeds) simp
  then show ?thesis by auto
qed

lemma Castagnoli_xpow:
  "xpow Castagnoli_const 2147483648 = (0x40000000 :: 32 word)"
  "xpow Castagnoli_const 4294967296 = (0x20000000 :: 32 word)"
proof -
  have "xpow Castagnoli_const 1 = (2 :: 32 word) ^ (LENGTH(32) - 1 - 1)"
    by (rule xpow_small) simp
  then have p0: "xpow Castagnoli_const 1 = (0x40000000 :: 32 word)" by simp
  have p1: "xpow Castagnoli_const 2 = (0x20000000 :: 32 word)"
    by (rule sq_step [OF p0], code_simp, simp)
  have p2: "xpow Castagnoli_const 4 = (0x08000000 :: 32 word)"
    by (rule sq_step [OF p1], code_simp, simp)
  have p3: "xpow Castagnoli_const 8 = (0x00800000 :: 32 word)"
    by (rule sq_step [OF p2], code_simp, simp)
  have p4: "xpow Castagnoli_const 16 = (0x00008000 :: 32 word)"
    by (rule sq_step [OF p3], code_simp, simp)
  have p5: "xpow Castagnoli_const 32 = (0x82f63b78 :: 32 word)"
    by (rule sq_step [OF p4], code_simp, simp)
  have p6: "xpow Castagnoli_const 64 = (0x6ea2d55c :: 32 word)"
    by (rule sq_step [OF p5], code_simp, simp)
  have p7: "xpow Castagnoli_const 128 = (0x18b8ea18 :: 32 word)"
    by (rule sq_step [OF p6], code_simp, simp)
  have p8: "xpow Castagnoli_const 256 = (0x510ac59a :: 32 word)"
    by (rule sq_step [OF p7], code_simp, simp)
  have p9: "xpow Castagnoli_const 512 = (0xb82be955 :: 32 word)"
    by (rule sq_step [OF p8], code_simp, simp)
  have p10: "xpow Castagnoli_const 1024 = (0xb8fdb1e7 :: 32 word)"
    by (rule sq_step [OF p9], code_simp, simp)
  have p11: "xpow Castagnoli_const 2048 = (0x88e56f72 :: 32 word)"
    by (rule sq_step [OF p10], code_simp, simp)
  have p12: "xpow Castagnoli_const 4096 = (0x74c360a4 :: 32 word)"
    by (rule sq_step [OF p11], code_simp, simp)
  have p13: "xpow Castagnoli_const 8192 = (0xe4172b16 :: 32 word)"
    by (rule sq_step [OF p12], code_simp, simp)
  have p14: "xpow Castagnoli_const 16384 = (0x0d65762a :: 32 word)"
    by (rule sq_step [OF p13], code_simp, simp)
  have p15: "xpow Castagnoli_const 32768 = (0x35d73a62 :: 32 word)"
    by (rule sq_step [OF p14], code_simp, simp)
  have p16: "xpow Castagnoli_const 65536 = (0x28461564 :: 32 word)"
    by (rule sq_step [OF p15], code_simp, simp)
  have p17: "xpow Castagnoli_const 131072 = (0xbf455269 :: 32 word)"
    by (rule sq_step [OF p16], code_simp, simp)
  have p18: "xpow Castagnoli_const 262144 = (0xe2ea32dc :: 32 word)"
    by (rule sq_step [OF p17], code_simp, simp)
  have p19: "xpow Castagnoli_const 524288 = (0xfe7740e6 :: 32 word)"
    by (rule sq_step [OF p18], code_simp, simp)
  have p20: "xpow Castagnoli_const 1048576 = (0xf946610b :: 32 word)"
    by (rule sq_step [OF p19], code_simp, simp)
  have p21: "xpow Castagnoli_const 2097152 = (0x3c204f8f :: 32 word)"
    by (rule sq_step [OF p20], code_simp, simp)
  have p22: "xpow Castagnoli_const 4194304 = (0x538586e3 :: 32 word)"
    by (rule sq_step [OF p21], code_simp, simp)
  have p23: "xpow Castagnoli_const 8388608 = (0x59726915 :: 32 word)"
    by (rule sq_step [OF p22], code_simp, simp)
  have p24: "xpow Castagnoli_const 16777216 = (0x734d5309 :: 32 word)"
    by (rule sq_step [OF p23], code_simp, simp)
  have p25: "xpow Castagnoli_const 33554432 = (0xbc1ac763 :: 32 word)"
    by (rule sq_step [OF p24], code_simp, simp)
  have p26: "xpow Castagnoli_const 67108864 = (0x7d0722cc :: 32 word)"
    by (rule sq_step [OF p25], code_simp, simp)
  have p27: "xpow Castagnoli_const 134217728 = (0xd289cabe :: 32 word)"
    by (rule sq_step [OF p26], code_simp, simp)
  have p28: "xpow Castagnoli_const 268435456 = (0xe94ca9bc :: 32 word)"
    by (rule sq_step [OF p27], code_simp, simp)
  have p29: "xpow Castagnoli_const 536870912 = (0x05b74f3f :: 32 word)"
    by (rule sq_step [OF p28], code_simp, simp)
  have p30: "xpow Castagnoli_const 1073741824 = (0xa51e1f42 :: 32 word)"
    by (rule sq_step [OF p29], code_simp, simp)
  have p31: "xpow Castagnoli_const 2147483648 = (0x40000000 :: 32 word)"
    by (rule sq_step [OF p30], code_simp, simp)
  have p32: "xpow Castagnoli_const 4294967296 = (0x20000000 :: 32 word)"
    by (rule sq_step [OF p31], code_simp, simp)
  show "xpow Castagnoli_const 2147483648 = (0x40000000 :: 32 word)" by (rule p31)
  show "xpow Castagnoli_const 4294967296 = (0x20000000 :: 32 word)" by (rule p32)
qed

lemma spec_shift: "x2NModP_spec p (2 ^ j * m) k v = x2NModP_spec p m (k + j) v"
proof (induction j arbitrary: k)
  case 0 show ?case by simp
next
  case (Suc j)
  show ?case
  proof (cases "m = 0")
    case True
    then show ?thesis by (subst x2NModP_spec.simps, subst (2) x2NModP_spec.simps) simp
  next
    case False
    have "x2NModP_spec p (2 ^ Suc j * m) k v = x2NModP_spec p (2 ^ j * m) (k + 1) v"
      using False by (subst x2NModP_spec.simps) simp
    also have "\<dots> = x2NModP_spec p m (k + 1 + j) v" by (rule Suc.IH)
    finally show ?thesis by simp
  qed
qed

lemma xor_cancel_right: "(a XOR c = b XOR c) = (a = (b :: 'a::len word))"
proof
  assume "a XOR c = b XOR c"
  then have "(a XOR c) XOR c = (b XOR c) XOR c" by (simp only:)
  then show "a = b" by (simp add: xor.assoc)
next
  assume "a = b" then show "a XOR c = b XOR c" by simp
qed

lemma Castagnoli_x2NModP:
  "x2NModP (projr (makePoly Castagnoli_const)) 536870912 3 = Some (Inr (0x40000000 :: 32 word))"
proof -
  let ?p = "projr (makePoly Castagnoli_const)"
  note mk = Castagnoli_succeeds
  have pp: "poly ?p = Castagnoli_const" using mk by (rule makePoly_poly)
  have "x2nTbl ?p ! 0 = push_bit (LENGTH(32) - 2) 1" using mk by (rule makePoly_entry0)
  then have t0: "x2nTbl ?p ! 0 = 0x40000000" by simp
  have w: "LENGTH(32) = 32 \<or> LENGTH(32) = 64" by simp
  have n: "0 \<le> sint (536870912 :: 64 word)" by simp
  have "x2NModP ?p 536870912 3 =
          Some (x2NModP_spec ?p (nat (sint (536870912 :: 64 word))) (unat (3 :: 32 word))
                 (push_bit (LENGTH(32) - 1) 1))"
    using w n by (rule x2NModP_refines)
  also have "nat (sint (536870912 :: 64 word)) = 2 ^ 29 * 1" by simp
  also have "unat (3 :: 32 word) = 3" by simp
  also have "(push_bit (LENGTH(32) - 1) 1 :: 32 word) = 0x80000000" by simp
  also have "x2NModP_spec ?p (2 ^ 29 * 1) 3 0x80000000 = x2NModP_spec ?p 1 (3 + 29) 0x80000000"
    by (rule spec_shift)
  also have "\<dots> = Inr 0x40000000"
  proof -
    have u: "mulP Castagnoli_const 0x40000000 (2 ^ (LENGTH(32) - 1)) = (0x40000000 :: 32 word)"
      by (rule mulP_unit)
    have m: "multModP ?p 0x40000000 0x80000000 = Inr 0x40000000"
      using u by (simp add: multModP_eq pp)
    have z: "x2NModP_spec ?p 0 33 0x40000000 = Inr 0x40000000"
      by (subst x2NModP_spec.simps) simp
    show ?thesis
      by (subst x2NModP_spec.simps) (simp add: t0 m z)
  qed
  finally show ?thesis .
qed

lemma Castagnoli_Combine:
  assumes u: "u \<noteq> 0"
  shows "Combine (projr (makePoly Castagnoli_const)) u y 536870912 =
           Some (Inr (mulX Castagnoli_const u XOR y))"
proof -
  let ?p = "projr (makePoly Castagnoli_const)"
  have pp: "poly ?p = Castagnoli_const" using Castagnoli_succeeds by (rule makePoly_poly)
  have "xpow Castagnoli_const 1 = (2 :: 32 word) ^ (LENGTH(32) - 1 - 1)"
    by (rule xpow_small) simp
  then have x1: "xpow Castagnoli_const 1 = (0x40000000 :: 32 word)" by simp
  have "mulP Castagnoli_const u 0x40000000 = mulP Castagnoli_const (xpow Castagnoli_const 1) u"
    by (simp only: x1 mulP_commute [of _ u])
  also have "\<dots> = (mulX Castagnoli_const ^^ 1) u" by (rule mulP_xpow)
  finally have m: "mulP Castagnoli_const u 0x40000000 = mulX Castagnoli_const u" by simp
  have s: "\<not> sint (536870912 :: 64 word) \<le> 0" by simp
  show ?thesis
    using u s by (simp add: Combine_def Castagnoli_x2NModP multModP_eq pp m)
qed

lemma Castagnoli_Update:
  assumes len: "length B = 536870912"
  shows "Update (projr (makePoly Castagnoli_const)) u B =
           mulX Castagnoli_const (mulX Castagnoli_const u)
             XOR Update (projr (makePoly Castagnoli_const)) 0 B"
proof -
  let ?p = "projr (makePoly Castagnoli_const)"
  have st: "stdlib ?p = MakeTable Castagnoli_const" using Castagnoli_succeeds by (rule makePoly_stdlib)
  have w: "8 \<le> LENGTH(32)" by simp
  have e: "8 * length B = 4294967296" using len by simp
  have "xpow Castagnoli_const 2 = (2 :: 32 word) ^ (LENGTH(32) - 1 - 2)"
    by (rule xpow_small) simp
  then have x2: "xpow Castagnoli_const 2 = (0x20000000 :: 32 word)" by simp
  have "(mulX Castagnoli_const ^^ 4294967296) u = mulP Castagnoli_const (xpow Castagnoli_const 4294967296) u"
    by (rule mulP_xpow [symmetric])
  also have "\<dots> = mulP Castagnoli_const (xpow Castagnoli_const 2) u"
    by (simp only: Castagnoli_xpow x2)
  also have "\<dots> = (mulX Castagnoli_const ^^ 2) u" by (rule mulP_xpow)
  also have "\<dots> = mulX Castagnoli_const (mulX Castagnoli_const u)"
    by (simp only: funpow.simps numeral_2_eq_2 o_apply id_apply)
  finally have f: "(mulX Castagnoli_const ^^ (8 * length B)) u = mulX Castagnoli_const (mulX Castagnoli_const u)"
    by (simp only: e)
  have "stdUpdate u (MakeTable Castagnoli_const) B =
          (mulX Castagnoli_const ^^ (8 * length B)) u XOR stdUpdate 0 (MakeTable Castagnoli_const) B"
    using w by (rule stdUpdate_xor)
  then show ?thesis by (simp only: Update_def st f)
qed

lemma Castagnoli_Checksum_one:
  "Checksum (projr (makePoly Castagnoli_const)) [1] = 0xa016d052"
proof -
  let ?p = "projr (makePoly Castagnoli_const)"
  have st: "stdlib ?p = MakeTable Castagnoli_const" using Castagnoli_succeeds by (rule makePoly_stdlib)
  have w: "8 \<le> LENGTH(32)" by simp
  have "Checksum ?p [1] = NOT (updateByte (MakeTable Castagnoli_const) 1 (NOT 0))"
    by (simp add: Checksum_def stdUpdate_def st)
  also have "\<dots> = NOT ((mulX Castagnoli_const ^^ 8) (NOT 0 XOR ucast (1 :: 8 word)))"
    using w by (simp only: updateByte_mulX)
  also have "ucast (1 :: 8 word) = (1 :: 32 word)" by simp
  also have "NOT ((mulX Castagnoli_const ^^ 8) (NOT 0 XOR 1)) = (0xa016d052 :: 32 word)"
    by code_simp
  finally show ?thesis .
qed

text \<open>
  C1, at the Castagnoli polynomial with \<open>A\<close> the single byte 1 and \<open>B\<close> a block of
  \<open>2^29\<close> zero bytes: \<open>Combine(Checksum(A), Checksum(B), len(B))\<close> is not
  \<open>Checksum(A ++ B)\<close>. The loop of \<open>x2NModP(2^29, 3)\<close> reaches \<open>k = 32\<close> and reads
  \<open>x2nTbl[32 & 31] = x2nTbl[0] = x\<close> where \<open>x^(2^32)\<close> is needed; modulo the Castagnoli
  polynomial \<open>x^(2^32) = x^2\<close>, so \<open>Combine\<close> multiplies the previous sum by \<open>x\<close>
  and the sequential checksum multiplies it by \<open>x^2\<close>.
\<close>

theorem Combine_Castagnoli_long_block:
  "Combine (projr (makePoly Castagnoli_const))
     (Checksum (projr (makePoly Castagnoli_const)) [1])
     (Checksum (projr (makePoly Castagnoli_const)) (replicate 536870912 0))
     (of_nat (length (replicate 536870912 (0 :: 8 word))))
   \<noteq> Some (Inr (Checksum (projr (makePoly Castagnoli_const)) ([1] @ replicate 536870912 0)))"
proof -
  let ?p = "projr (makePoly Castagnoli_const)"
  let ?B = "replicate 536870912 (0 :: 8 word)"
  have len: "length ?B = 536870912" by (simp only: length_replicate)
  have n: "(of_nat (length ?B) :: 64 word) = 536870912" by (simp only: len) simp
  have u0: "(0xa016d052 :: 32 word) \<noteq> 0" by simp
  have c: "Combine ?p 0xa016d052 (Checksum ?p ?B) 536870912 =
             Some (Inr (mulX Castagnoli_const 0xa016d052 XOR Checksum ?p ?B))"
    using u0 by (rule Castagnoli_Combine)
  have "Checksum ?p ([1] @ ?B) = Update ?p (Checksum ?p [1]) ?B"
    by (simp only: Checksum_def Update_def stdUpdate_append)
  also have "\<dots> = Update ?p 0xa016d052 ?B"
    by (simp only: Castagnoli_Checksum_one)
  also have "\<dots> = mulX Castagnoli_const (mulX Castagnoli_const 0xa016d052) XOR Update ?p 0 ?B"
    using len by (rule Castagnoli_Update)
  finally have s: "Checksum ?p ([1] @ ?B) =
      mulX Castagnoli_const (mulX Castagnoli_const 0xa016d052) XOR Checksum ?p ?B"
    by (simp only: Checksum_def Update_def)
  have d: "mulX Castagnoli_const (0xa016d052 :: 32 word) \<noteq>
           mulX Castagnoli_const (mulX Castagnoli_const 0xa016d052)"
    by code_simp
  have "mulX Castagnoli_const (0xa016d052 :: 32 word) XOR Checksum ?p ?B \<noteq>
        mulX Castagnoli_const (mulX Castagnoli_const 0xa016d052) XOR Checksum ?p ?B"
    using d by (simp only: xor_cancel_right not_False_eq_True simp_thms)
  then show ?thesis
    by (simp only: n Castagnoli_Checksum_one c s option.inject sum.inject not_False_eq_True simp_thms)
qed

section \<open>The guards of Combine\<close>

text \<open>
  C7. A zero previous sum is the identity prefix: for every Poly, every checksum \<open>x\<close> and
  every length \<open>n\<close>, positive, zero or negative, \<open>Combine(0, x, n)\<close> returns \<open>x\<close>.
\<close>

theorem Combine_zero_prev: "Combine p 0 x n = Some (Inr x)"
  by (simp add: Combine_def)

text \<open>
  C2 as stated: \<open>Combine(x, y, n) = x\<close> for every \<open>x\<close>, \<open>y\<close> and \<open>n \<le> 0\<close>. The test
  \<open>prev == 0\<close> comes first in the code, so with \<open>x = 0\<close>, \<open>y = 1\<close>, \<open>n = 0\<close> the IEEE
  Poly returns 1, not 0.
\<close>

theorem Combine_nonpositive_counterexample:
  "Combine (projr (makePoly IEEE_const)) 0 1 0 \<noteq> Some (Inr 0)"
  by (simp add: Combine_def)

text \<open>
  C2, amended. For every Poly, every \<open>x\<close>, \<open>y\<close> and every length \<open>n \<le> 0\<close>:
  \<open>Combine(x, y, n)\<close> returns \<open>x\<close> when \<open>x\<close> is not zero, and \<open>y\<close> when \<open>x\<close> is zero.
\<close>

theorem Combine_nonpositive:
  "sint n \<le> 0 \<Longrightarrow> Combine p x y n = Some (Inr (if x = 0 then y else x))"
  by (simp add: Combine_def)

theorem Combine_nonpositive_witness:
  "sint (-5 :: 64 word) \<le> 0 \<and>
   Combine (projr (makePoly IEEE_const)) 7 9 (-5) = Some (Inr (if (7 :: 32 word) = 0 then 9 else 7))"
  using Combine_nonpositive [of "-5" "projr (makePoly IEEE_const)" 7 9] by simp

end
